theory Spec2Isabelle
  imports Main "HOL-Library.Sublist"
begin

section \<open>Theme selector (locally-known-lawn-and-pest-inbound/src/design/tokens/index.ts)\<close>

text \<open>
  The TypeScript type \<open>ThemeName\<close> is a union of six string literals. Types are erased at
  run time, and the theme switcher passes \<open>target.value as ThemeName\<close>, so the functions
  below take and store arbitrary strings; \<open>ThemeName\<close> is the list of the six literals.
\<close>

definition ThemeName :: "string list" where
  "ThemeName = [''current'', ''theme-1'', ''theme-2'', ''theme-3'', ''theme-4'', ''theme-5'']"

text \<open>
  What a call may throw: the storage layer, reading a file, or calling what is not a
  function.
\<close>

datatype exn = StorageError | ReadError | TypeError

text \<open>
  The ambient state the two functions touch: whether \<open>document\<close> is defined, the
  \<open>data-theme\<close> attribute of the root element (\<open>None\<close> when unset), and \<open>localStorage\<close>:
  its entries and whether reading or writing it throws (no storage object, security error,
  quota exceeded).
\<close>

record host =
  has_document :: bool
  dataset_theme :: "string option"
  getItem_throws :: bool
  setItem_throws :: bool
  items :: "string \<rightharpoonup> string"

definition localStorage_getItem :: "host \<Rightarrow> string \<Rightarrow> exn + string option" where
  "localStorage_getItem h k = (if getItem_throws h then Inl StorageError else Inr (items h k))"

definition localStorage_setItem :: "host \<Rightarrow> string \<Rightarrow> string \<Rightarrow> exn + host" where
  "localStorage_setItem h k v =
     (if setItem_throws h then Inl StorageError else Inr (h\<lparr>items := (items h)(k \<mapsto> v)\<rparr>))"

text \<open>
  \<open>setTheme\<close>: returns at once without a document; otherwise writes the attribute
  (\<open>""\<close> for \<open>"current"\<close>), then tries the store and swallows what it throws.
\<close>

definition setTheme :: "string \<Rightarrow> host \<Rightarrow> exn + host" where
  "setTheme name h =
     (if \<not> has_document h then Inr h
      else
        let h1 = h\<lparr>dataset_theme := Some (if name = ''current'' then [] else name)\<rparr>
        in (case localStorage_setItem h1 ''theme'' name of
              Inl e \<Rightarrow> Inr h1
            | Inr h2 \<Rightarrow> Inr h2))"

text \<open>
  \<open>getSavedTheme\<close>: reads the key inside \<open>try\<close>; the chain of \<open>===\<close> comparisons
  becomes the disjunction below; \<open>catch\<close> returns \<open>null\<close>.
\<close>

definition getSavedTheme :: "host \<Rightarrow> exn + string option" where
  "getSavedTheme h =
     (case localStorage_getItem h ''theme'' of
        Inl e \<Rightarrow> Inr None
      | Inr v \<Rightarrow>
          if v = Some ''current'' \<or> v = Some ''theme-1'' \<or> v = Some ''theme-2''
             \<or> v = Some ''theme-3'' \<or> v = Some ''theme-4'' \<or> v = Some ''theme-5''
          then Inr v else Inr None)"

text \<open>A browser with \<open>theme-1\<close> active and saved, and a host without a document.\<close>

definition browser1 :: host where
  "browser1 = \<lparr>has_document = True, dataset_theme = Some ''theme-1'',
     getItem_throws = False, setItem_throws = False,
     items = [''theme'' \<mapsto> ''theme-1'']\<rparr>"

definition server1 :: host where
  "server1 = \<lparr>has_document = False, dataset_theme = None,
     getItem_throws = True, setItem_throws = True, items = Map.empty\<rparr>"



section \<open>JavaScript strings\<close>

text \<open>
  Page text is a \<open>string\<close>. The three characters that cannot be written inside a string
  literal here are named: line feed, double quote and single quote.
\<close>

definition nl :: char where "nl = CHR 0x0A"
definition dq :: char where "dq = CHR 0x22"
definition sq :: char where "sq = CHR 0x27"

definition quoted :: "string \<Rightarrow> string" where
  "quoted s = dq # s @ [dq]"

text \<open>\<open>s.includes(t)\<close>: \<open>t\<close> occurs somewhere in \<open>s\<close>.\<close>

fun js_includes :: "string \<Rightarrow> string \<Rightarrow> bool" where
  "js_includes [] t = (t = [])"
| "js_includes (c # cs) t = (prefix t (c # cs) \<or> js_includes cs t)"

text \<open>\<open>s.indexOf(t)\<close>: the index of the first occurrence, \<open>-1\<close> when there is none.\<close>

fun indexOf_from :: "nat \<Rightarrow> string \<Rightarrow> string \<Rightarrow> int" where
  "indexOf_from i [] t = (if t = [] then int i else - 1)"
| "indexOf_from i (c # cs) t = (if prefix t (c # cs) then int i else indexOf_from (Suc i) cs t)"

definition indexOf :: "string \<Rightarrow> string \<Rightarrow> int" where
  "indexOf s t = indexOf_from 0 s t"

text \<open>\<open>s.substring(0, e)\<close>: a negative end counts as \<open>0\<close>, one past the end as the length.\<close>

definition substring0 :: "string \<Rightarrow> int \<Rightarrow> string" where
  "substring0 s e = take (nat e) s"

text \<open>\<open>s.split(d)\<close> for a one-character separator; the empty string gives one empty piece.\<close>

fun split_on :: "char \<Rightarrow> string \<Rightarrow> string list" where
  "split_on d [] = [[]]"
| "split_on d (c # cs) =
     (if c = d then [] # split_on d cs
      else (case split_on d cs of [] \<Rightarrow> [[c]] | p # ps \<Rightarrow> (c # p) # ps))"

text \<open>
  The line of index \<open>i\<close>, as every script computes it:
  \<open>content.substring(0, i).split('\n').length\<close>.
\<close>

definition lineNumber :: "string \<Rightarrow> int \<Rightarrow> nat" where
  "lineNumber content i = length (split_on nl (substring0 content i))"

text \<open>White space (\<open>\s\<close>, and what \<open>trim\<close> removes), among the characters a \<open>char\<close> can be.\<close>

definition space_chars :: "char list" where
  "space_chars = [CHR '' '', CHR 0x09, CHR 0x0A, CHR 0x0B, CHR 0x0C, CHR 0x0D, CHR 0xA0]"

definition trim :: "string \<Rightarrow> string" where
  "trim s = rev (dropWhile (\<lambda>c. c \<in> set space_chars)
                  (rev (dropWhile (\<lambda>c. c \<in> set space_chars) s)))"

definition startsWith :: "string \<Rightarrow> string \<Rightarrow> bool" where
  "startsWith s t = prefix t s"

text \<open>The order of \<open>new Set(xs)\<close>: each element once, at its first occurrence.\<close>

definition set_order :: "string list \<Rightarrow> string list" where
  "set_order xs = rev (remdups (rev xs))"


section \<open>Regular expressions\<close>

text \<open>
  The fragment of ECMAScript regular expressions that the scripts use: characters,
  classes and negated classes, sequence, alternation, greedy \<open>*\<close> and \<open>{lo,hi}\<close>,
  lookahead \<open>(?=p)\<close> and \<open>(?!p)\<close>, the lookbehind \<open>(?<!C)\<close> for a class \<open>C\<close>, and
  numbered capture groups.
\<close>

definition digit :: "char list" where "digit = ''0123456789''"

definition word_chars :: "char list" where
  "word_chars = ''abcdefghijklmnopqrstuvwxyzABCDEFGHIJKLMNOPQRSTUVWXYZ0123456789_''"

datatype re =
    Chr char
  | OneOf "char list"
  | NoneOf "char list"
  | Epsilon
  | Seq re re
  | Alt re re
  | Star re
  | Rep nat nat re
  | Ahead re
  | NotAhead re
  | NotBehind "char list"
  | Grp nat re

text \<open>
  A matcher state: the text before the current position (reversed, for the lookbehind),
  the text from the current position on, and the captures made so far. Matching is
  backtracking: \<open>run r st\<close> lists every state in which \<open>r\<close> can end when started in
  \<open>st\<close>, in the order the engine tries them; the engine takes the first.
\<close>

type_synonym mstate = "string \<times> string \<times> (nat \<times> string) list"

definition remaining :: "mstate \<Rightarrow> nat" where
  "remaining st = length (fst (snd st))"

text \<open>
  Greedy iteration: one more round of the body first, then stopping here. A round that
  consumes nothing is rejected, as the engine's empty check does; so a round consumes at
  least one character and \<open>Suc (remaining st)\<close> rounds are never exhausted.
\<close>

primrec star :: "(mstate \<Rightarrow> mstate list) \<Rightarrow> nat \<Rightarrow> mstate \<Rightarrow> mstate list" where
  "star f 0 st = [st]"
| "star f (Suc n) st =
     concat (map (\<lambda>st'. if remaining st' < remaining st then star f n st' else []) (f st))
     @ [st]"

primrec rep :: "(mstate \<Rightarrow> mstate list) \<Rightarrow> nat \<Rightarrow> nat \<Rightarrow> mstate \<Rightarrow> mstate list" where
  "rep f lo 0 st = (if lo = 0 then [st] else [])"
| "rep f lo (Suc n) st =
     concat (map (\<lambda>st'. if lo = 0 \<and> \<not> remaining st' < remaining st then []
                          else rep f (lo - 1) n st') (f st))
     @ (if lo = 0 then [st] else [])"

primrec run :: "re \<Rightarrow> mstate \<Rightarrow> mstate list" where
  "run (Chr c) =
     (\<lambda>(b, s, g). case s of [] \<Rightarrow> [] | x # xs \<Rightarrow> if x = c then [(x # b, xs, g)] else [])"
| "run (OneOf cs) =
     (\<lambda>(b, s, g). case s of [] \<Rightarrow> [] | x # xs \<Rightarrow> if x \<in> set cs then [(x # b, xs, g)] else [])"
| "run (NoneOf cs) =
     (\<lambda>(b, s, g). case s of [] \<Rightarrow> [] | x # xs \<Rightarrow> if x \<notin> set cs then [(x # b, xs, g)] else [])"
| "run Epsilon = (\<lambda>st. [st])"
| "run (Seq p q) = (\<lambda>st. concat (map (run q) (run p st)))"
| "run (Alt p q) = (\<lambda>st. run p st @ run q st)"
| "run (Star p) = (\<lambda>st. star (run p) (Suc (remaining st)) st)"
| "run (Rep lo hi p) = (\<lambda>st. rep (run p) lo hi st)"
| "run (Ahead p) = (\<lambda>st. if run p st = [] then [] else [st])"
| "run (NotAhead p) = (\<lambda>st. if run p st = [] then [st] else [])"
| "run (NotBehind cs) =
     (\<lambda>(b, s, g). case b of [] \<Rightarrow> [(b, s, g)]
                    | x # xs \<Rightarrow> if x \<in> set cs then [] else [(b, s, g)])"
| "run (Grp n p) =
     (\<lambda>(b, s, g). map (\<lambda>(b', s', g'). (b', s', (n, take (length s - length s') s) # g'))
                     (run p (b, s, g)))"

text \<open>Shorthands: a sequence of parts, a literal string, \<open>p+\<close>, \<open>p?\<close>, a list of alternatives.\<close>

definition seqs :: "re list \<Rightarrow> re" where
  "seqs rs = foldr Seq rs Epsilon"

definition lit :: "string \<Rightarrow> re" where
  "lit s = seqs (map Chr s)"

fun alts :: "re list \<Rightarrow> re" where
  "alts [] = OneOf []"
| "alts [r] = r"
| "alts (r # rs) = Alt r (alts rs)"

definition Many1 :: "re \<Rightarrow> re" where
  "Many1 p = Seq p (Star p)"

definition Opt :: "re \<Rightarrow> re" where
  "Opt p = Rep 0 1 p"

text \<open>
  The flag \<open>i\<close>: a letter of the pattern matches in either case. (The classes that occur
  under this flag in the scripts exclude only punctuation, which has no case.)
\<close>

definition case_pairs :: "(char \<times> char) list" where
  "case_pairs = zip ''abcdefghijklmnopqrstuvwxyz'' ''ABCDEFGHIJKLMNOPQRSTUVWXYZ''"

definition ci :: "char \<Rightarrow> re" where
  "ci c = (case map_of case_pairs c of
             Some u \<Rightarrow> OneOf [c, u]
           | None \<Rightarrow> (case map_of (map (\<lambda>(l, u). (u, l)) case_pairs) c of
                        Some l \<Rightarrow> OneOf [c, l]
                      | None \<Rightarrow> Chr c))"

definition lit_i :: "string \<Rightarrow> re" where
  "lit_i s = seqs (map ci s)"

text \<open>A match: where it starts, the text it covers, its captures.\<close>

record rmatch =
  index :: nat
  matched :: string
  groups :: "(nat \<times> string) list"

definition group :: "rmatch \<Rightarrow> nat \<Rightarrow> string" where
  "group mt n = (case map_of (groups mt) n of Some t \<Rightarrow> t | None \<Rightarrow> [])"

text \<open>
  \<open>s.match(r)\<close> and \<open>s.replace(r, new)\<close> for a regex with the flag \<open>g\<close>: scan from
  the left; at a match, continue after it; at an empty match or none, move on by one
  character. \<open>pos\<close> is the index of the current position, \<open>b\<close> the text before it.
\<close>

function all_matches :: "re \<Rightarrow> nat \<Rightarrow> string \<Rightarrow> string \<Rightarrow> rmatch list" where
  "all_matches r pos b s =
     (case run r (b, s, []) of
        (b1, s1, g) # _ \<Rightarrow>
          \<lparr>index = pos, matched = take (length s - length s1) s, groups = g\<rparr>
          # (if length s1 < length s then all_matches r (pos + (length s - length s1)) b1 s1
             else (case s of [] \<Rightarrow> [] | c # cs \<Rightarrow> all_matches r (Suc pos) (c # b) cs))
      | [] \<Rightarrow> (case s of [] \<Rightarrow> [] | c # cs \<Rightarrow> all_matches r (Suc pos) (c # b) cs))"
  by pat_completeness auto
termination
  by (relation "measure (\<lambda>(r, pos, b, s). length s)") auto

declare all_matches.simps [simp del]

definition match_g :: "string \<Rightarrow> re \<Rightarrow> string list" where
  "match_g s r = map matched (all_matches r 0 [] s)"

function replace_scan :: "re \<Rightarrow> string \<Rightarrow> string \<Rightarrow> string \<Rightarrow> string" where
  "replace_scan r new b s =
     (case run r (b, s, []) of
        (b1, s1, g) # _ \<Rightarrow>
          new @ (if length s1 < length s then replace_scan r new b1 s1
                 else (case s of [] \<Rightarrow> [] | c # cs \<Rightarrow> c # replace_scan r new (c # b) cs))
      | [] \<Rightarrow> (case s of [] \<Rightarrow> [] | c # cs \<Rightarrow> c # replace_scan r new (c # b) cs))"
  by pat_completeness auto
termination
  by (relation "measure (\<lambda>(r, new, b, s). length s)") auto

declare replace_scan.simps [simp del]

text \<open>The replacement strings of the scripts contain no \<open>$\<close>, so they are inserted as they are.\<close>

definition replace_g :: "string \<Rightarrow> re \<Rightarrow> string \<Rightarrow> string" where
  "replace_g s r new = replace_scan r new [] s"

text \<open>
  The loop \<open>while ((match = r.exec(s)) !== null)\<close> for a regex with the flag \<open>g\<close>:
  \<open>exec\<close> starts at \<open>lastIndex\<close> and leaves it at the end of the match. After an
  empty match \<open>lastIndex\<close> has not moved and the loop finds the same match for ever:
  that is the result \<open>None\<close>.
\<close>

function exec_loop :: "re \<Rightarrow> nat \<Rightarrow> string \<Rightarrow> string \<Rightarrow> rmatch list option" where
  "exec_loop r pos b s =
     (case run r (b, s, []) of
        (b1, s1, g) # _ \<Rightarrow>
          (if length s1 < length s
           then map_option
                  (\<lambda>ms. \<lparr>index = pos, matched = take (length s - length s1) s, groups = g\<rparr> # ms)
                  (exec_loop r (pos + (length s - length s1)) b1 s1)
           else None)
      | [] \<Rightarrow> (case s of [] \<Rightarrow> Some [] | c # cs \<Rightarrow> exec_loop r (Suc pos) (c # b) cs))"
  by pat_completeness auto
termination
  by (relation "measure (\<lambda>(r, pos, b, s). length s)") auto

declare exec_loop.simps [simp del]

text \<open>Without the flag \<open>g\<close>: the first match, with the text after it.\<close>

fun first_match :: "re \<Rightarrow> nat \<Rightarrow> string \<Rightarrow> string \<Rightarrow> (rmatch \<times> string) option" where
  "first_match r pos b s =
     (case run r (b, s, []) of
        (b1, s1, g) # _ \<Rightarrow>
          Some (\<lparr>index = pos, matched = take (length s - length s1) s, groups = g\<rparr>, s1)
      | [] \<Rightarrow> (case s of [] \<Rightarrow> None | c # cs \<Rightarrow> first_match r (Suc pos) (c # b) cs))"

declare first_match.simps [simp del]

definition test :: "re \<Rightarrow> string \<Rightarrow> bool" where
  "test r s = (first_match r 0 [] s \<noteq> None)"

definition replace_first :: "string \<Rightarrow> re \<Rightarrow> (string \<Rightarrow> string) \<Rightarrow> string" where
  "replace_first s r f =
     (case first_match r 0 [] s of
        None \<Rightarrow> s
      | Some (mt, rest) \<Rightarrow> take (index mt) s @ f (matched mt) @ rest)"


section \<open>Files\<close>

text \<open>
  The working directory as the scripts see it: a path names nothing, a file that cannot be
  read, or a file with its text. \<open>readFileSync\<close> throws unless it gets the text;
  \<open>existsSync\<close> never throws.
\<close>

datatype fentry = Missing | Unreadable | File string

type_synonym files = "string \<Rightarrow> fentry"

definition readFileSync :: "files \<Rightarrow> string \<Rightarrow> exn + string" where
  "readFileSync fs p = (case fs p of File c \<Rightarrow> Inr c | _ \<Rightarrow> Inl ReadError)"

definition existsSync :: "files \<Rightarrow> string \<Rightarrow> bool" where
  "existsSync fs p = (fs p \<noteq> Missing)"


section \<open>Token audit (bird-dog-moving-inbound/scripts/verify-design-tokens.js)\<close>

definition hexd :: "char list" where
  "hexd = ''0123456789abcdefABCDEF''"

definition ws :: re where
  "ws = OneOf space_chars"

definition num :: re where
  "num = Many1 (OneOf digit)"

definition decimal :: re where
  "decimal = Many1 (OneOf (digit @ ''.''))"

text \<open>
  \<open>HARDCODED_PATTERNS\<close>, in the order of the source: hex colours, \<open>rgb()\<close>/\<open>rgba()\<close>,
  \<open>hsl()\<close>/\<open>hsla()\<close>, spacing values, font sizes, border radii, box shadows, z-index.
\<close>

definition HARDCODED_PATTERNS :: "re list" where
  "HARDCODED_PATTERNS =
    [ seqs [Chr CHR ''#'', Rep 3 6 (OneOf hexd), NotAhead (OneOf hexd)],
      seqs [lit ''rgb'', Opt (Chr CHR ''a''), Chr CHR ''('', Star ws, num, Star ws,
            Chr CHR '','', Star ws, num, Star ws, Chr CHR '','', Star ws, num, Star ws,
            Opt (seqs [Chr CHR '','', Star ws, decimal]), Star ws, Chr CHR '')''],
      seqs [lit ''hsl'', Opt (Chr CHR ''a''), Chr CHR ''('', Star ws, num, Star ws,
            Chr CHR '','', Star ws, decimal, Star ws, Chr CHR '','', Star ws, decimal, Star ws,
            Opt (seqs [Chr CHR '','', Star ws, decimal]), Star ws, Chr CHR '')''],
      seqs [NotBehind word_chars,
            alts (map lit [''0.25rem'', ''0.375rem'', ''0.5rem'', ''0.75rem'', ''1rem'',
                            ''1.25rem'', ''1.5rem'', ''2rem'', ''3rem'', ''4rem'']),
            NotAhead (OneOf word_chars)],
      seqs [NotBehind word_chars,
            alts (map lit [''0.75rem'', ''0.875rem'', ''1rem'', ''1.125rem'', ''1.25rem'',
                            ''1.5rem'', ''1.875rem'', ''2.25rem'', ''3rem'']),
            NotAhead (OneOf word_chars)],
      seqs [NotBehind word_chars,
            alts (map lit [''0.25rem'', ''0.5rem'', ''0.75rem'', ''1rem'', ''1.5rem'']),
            NotAhead (OneOf word_chars)],
      seqs [lit ''box-shadow:'', Star ws, Star (NoneOf '';''), lit ''rgb'', Opt (Chr CHR ''a''),
            Chr CHR ''('', Star (NoneOf '')''), Chr CHR '')'', Star (NoneOf '';''), Chr CHR '';''],
      seqs [lit ''z-index:'', Star ws, num] ]"

definition ALLOWED_EXCEPTIONS :: "string list" where
  "ALLOWED_EXCEPTIONS =
    [''0px'', ''0rem'', ''0'', ''1px'', ''2px'', ''3px'', ''4px'', ''8px'',
     ''100%'', ''50%'', ''auto'', ''none'', ''transparent'', ''inherit'',
     ''currentColor'', ''initial'', ''unset'']"

text \<open>An issue of type \<open>hardcoded_value\<close>.\<close>

record hardcoded_issue =
  h_file :: string
  h_line :: nat
  h_value :: string
  h_pattern :: nat

text \<open>\<open>ALLOWED_EXCEPTIONS.some(exception => match.includes(exception))\<close>\<close>

definition isException :: "string \<Rightarrow> bool" where
  "isException match = list_ex (\<lambda>exception. js_includes match exception) ALLOWED_EXCEPTIONS"

text \<open>
  \<open>findHardcodedValues\<close>: pattern by pattern, the matches of the pattern in the order
  \<open>content.match\<close> returns them; the line is found through \<open>content.indexOf(match)\<close>.
\<close>

definition findHardcodedValues :: "string \<Rightarrow> string \<Rightarrow> hardcoded_issue list" where
  "findHardcodedValues content filePath =
     concat (map (\<lambda>(index, pattern).
        concat (map (\<lambda>match.
           if \<not> isException match
           then [\<lparr>h_file = filePath,
                   h_line = lineNumber content (indexOf content match),
                   h_value = trim match,
                   h_pattern = index\<rparr>]
           else [])
         (match_g content pattern)))
      (enumerate 0 HARDCODED_PATTERNS))"

text \<open>An issue of type \<open>undefined_token\<close>.\<close>

record undefined_issue =
  u_file :: string
  u_line :: nat
  u_token :: string

definition tokens_css :: string where
  "tokens_css = ''src/design-system/tokens/tokens.css''"

text \<open>
  \<open>findUnusedTokens\<close>: the \<open>var(--name)\<close> references of the page, each name once, that
  are not declared in \<open>tokens.css\<close>; a failure to read that file is caught and leaves
  no token available.
\<close>

definition findUnusedTokens :: "files \<Rightarrow> string \<Rightarrow> string \<Rightarrow> undefined_issue list" where
  "findUnusedTokens fs content filePath =
     (let tokenMatches = match_g content (seqs [lit ''var(--'', Many1 (NoneOf '')''), Chr CHR '')''])
      in if tokenMatches = [] then []
         else
           let availableTokens =
                 (case readFileSync fs tokens_css of
                    Inl error \<Rightarrow> []
                  | Inr tokensContent \<Rightarrow>
                      map (\<lambda>match. replace_g match (OneOf (CHR '':'' # space_chars)) [])
                        (match_g tokensContent (seqs [lit ''--'', Many1 (NoneOf '':''), Chr CHR '':''])));
               usedTokens =
                 set_order (map (\<lambda>match. replace_g match (Alt (lit ''var(--'') (Chr CHR '')'')) [])
                              tokenMatches)
           in concat (map (\<lambda>token.
                 if token \<notin> set availableTokens
                 then [\<lparr>u_file = filePath,
                         u_line = lineNumber content (indexOf content (''var(--'' @ token @ '')'')),
                         u_token = token\<rparr>]
                 else [])
               usedTokens))"

text \<open>An issue of type \<open>legacy_token\<close>.\<close>

record legacy_issue =
  l_file :: string
  l_line :: nat
  l_value :: string
  l_suggestion :: string
  l_message :: string

text \<open>\<open>legacyPatterns\<close>: pattern, replacement, message.\<close>

definition legacyPatterns :: "(re \<times> string \<times> string) list" where
  "legacyPatterns =
    [ (seqs [lit ''--color-brand'', NotAhead (Chr CHR ''-'')],
         ''--color-brand-primary'', ''Use semantic brand color tokens''),
      (seqs [lit ''--color-accent'', NotAhead (Chr CHR ''-'')],
         ''--color-brand-secondary'', ''Use semantic brand color tokens''),
      (lit ''--color-surface-alt'',
         ''--color-surface-secondary'', ''Use semantic surface color tokens''),
      (seqs [lit ''--fs-'', NotAhead (Alt (lit ''hero'') (lit ''h2''))],
         ''--font-size-'', ''Use semantic font size tokens''),
      (seqs [lit ''--lh-'', NotAhead (Alt (lit ''tight'') (lit ''body''))],
         ''--line-height-'', ''Use semantic line height tokens''),
      (seqs [lit ''--space-'', OneOf ''1234567''],
         ''--space-'', ''Use semantic spacing tokens''),
      (seqs [lit ''--radius-'', OneOf ''123''],
         ''--radius-'', ''Use semantic radius tokens''),
      (seqs [lit ''--shadow-'', OneOf ''1234''],
         ''--shadow-'', ''Use semantic shadow tokens'') ]"

text \<open>
  \<open>findLegacyTokens\<close>: for each legacy pattern, each match; the suggestion is
  \<open>match.replace(pattern, replacement)\<close>. Nothing is written back to the page.
\<close>

definition findLegacyTokens :: "string \<Rightarrow> string \<Rightarrow> legacy_issue list" where
  "findLegacyTokens content filePath =
     concat (map (\<lambda>(pattern, replacement, message).
        map (\<lambda>match.
           \<lparr>l_file = filePath,
            l_line = lineNumber content (indexOf content match),
            l_value = match,
            l_suggestion = replace_g match pattern replacement,
            l_message = message\<rparr>)
         (match_g content pattern))
      legacyPatterns)"

text \<open>The result of \<open>analyzeFile\<close> for one page.\<close>

record token_result =
  t_file :: string
  t_hardcoded :: "hardcoded_issue list"
  t_unused :: "undefined_issue list"
  t_legacy :: "legacy_issue list"
  t_total :: nat

text \<open>\<open>analyzeFile\<close> has no handler of its own: what reading the page throws, it throws.\<close>

definition analyzeFile_tokens :: "files \<Rightarrow> string \<Rightarrow> exn + token_result" where
  "analyzeFile_tokens fs filePath =
     (case readFileSync fs filePath of
        Inl e \<Rightarrow> Inl e
      | Inr content \<Rightarrow>
          let hardcodedIssues = findHardcodedValues content filePath;
              unusedTokenIssues = findUnusedTokens fs content filePath;
              legacyTokenIssues = findLegacyTokens content filePath
          in Inr \<lparr>t_file = filePath,
                  t_hardcoded = hardcodedIssues,
                  t_unused = unusedTokenIssues,
                  t_legacy = legacyTokenIssues,
                  t_total = length hardcodedIssues + length unusedTokenIssues
                            + length legacyTokenIssues\<rparr>)"

text \<open>
  What a run of \<open>main\<close> leaves behind: the pages named on \<open>console.error\<close> with the
  error caught for each, the per-page results handed to \<open>generateReport\<close>, and the exit
  status of the process (\<open>1\<close> through \<open>process.exit(1)\<close>, otherwise \<open>0\<close>).
\<close>

record token_run =
  tr_errors :: "(string \<times> exn) list"
  tr_results :: "token_result list"
  tr_exit :: nat

text \<open>
  \<open>main\<close>, for the pages \<open>htmlFiles\<close> that \<open>glob.sync('*.html')\<close> found. The handler
  around \<open>analyzeFile\<close> logs the error and returns a result with no issue and total \<open>0\<close>.
\<close>

definition main_tokens :: "files \<Rightarrow> string list \<Rightarrow> token_run" where
  "main_tokens fs htmlFiles =
     (if htmlFiles = [] then \<lparr>tr_errors = [], tr_results = [], tr_exit = 0\<rparr>
      else
        let outcomes = map (\<lambda>file. (file, analyzeFile_tokens fs file)) htmlFiles;
            results = map (\<lambda>(file, out).
                        case out of
                          Inr result \<Rightarrow> result
                        | Inl error \<Rightarrow> \<lparr>t_file = file, t_hardcoded = [], t_unused = [],
                                          t_legacy = [], t_total = 0\<rparr>) outcomes;
            totalIssues = foldl (\<lambda>sum result. sum + t_total result) 0 results
        in \<lparr>tr_errors = concat (map (\<lambda>(file, out).
                             case out of Inr result \<Rightarrow> [] | Inl error \<Rightarrow> [(file, error)]) outcomes),
            tr_results = results,
            tr_exit = (if totalIssues > 0 then 1 else 0)\<rparr>)"

text \<open>\<open>generateReport\<close> lists the pages of \<open>filesWithIssues\<close>, those with a positive total.\<close>

definition filesWithIssues_tokens :: "token_result list \<Rightarrow> token_result list" where
  "filesWithIssues_tokens results = filter (\<lambda>result. t_total result > 0) results"


section \<open>Token migration (bird-dog-moving-inbound/scripts/apply-tokens.js)\<close>

text \<open>
  The mapping objects, each as the list \<open>Object.entries\<close> gives: the keys in the order
  written, except that keys that are whole numbers come first in ascending order, which is
  the order the two objects with such keys (font weights, z-index) are written in.
\<close>

definition COLOR_MAPPINGS :: "(string \<times> string) list" where
  "COLOR_MAPPINGS =
    [(''#16324F'', ''var(--color-brand-primary)''),
     (''#FF7A00'', ''var(--color-brand-secondary)''),
     (''#32C671'', ''var(--color-brand-accent)''),
     (''#005F5F'', ''var(--color-brand-teal-primary)''),
     (''#008080'', ''var(--color-brand-teal-secondary)''),
     (''#4A9B9B'', ''var(--color-brand-teal-light)''),
     (''#FFFFFF'', ''var(--color-surface-primary)''),
     (''#F6F8FB'', ''var(--color-surface-secondary)''),
     (''#FAFAFA'', ''var(--color-surface-secondary)''),
     (''#0F172A'', ''var(--color-text-primary)''),
     (''#475569'', ''var(--color-text-muted)''),
     (''#E2E8F0'', ''var(--color-border-primary)''),
     (''#E5E5E5'', ''var(--color-border-primary)''),
     (''#cbd5e1'', ''var(--color-text-muted)''),
     (''#F59E0B'', ''var(--color-state-warning)''),
     (''#dbeafe'', ''var(--color-surface-tertiary)''),
     (''#F8FAFF'', ''var(--color-surface-tertiary)'')]"

definition SPACING_MAPPINGS :: "(string \<times> string) list" where
  "SPACING_MAPPINGS =
    [(''0.375rem'', ''var(--space-sm)''),
     (''0.75rem'', ''var(--space-lg)''),
     (''1rem'', ''var(--space-xl)''),
     (''1.5rem'', ''var(--space-2xl)''),
     (''2rem'', ''var(--space-3xl)''),
     (''3rem'', ''var(--space-4xl)''),
     (''4rem'', ''var(--space-5xl)'')]"

definition FONT_SIZE_MAPPINGS :: "(string \<times> string) list" where
  "FONT_SIZE_MAPPINGS =
    [(''clamp(2rem, 2.5vw + 1.2rem, 3rem)'', ''var(--font-size-hero)''),
     (''clamp(1.375rem, 1.5vw + 1rem, 2rem)'', ''var(--font-size-h2)''),
     (''1rem'', ''var(--font-size-base)''),
     (''0.9rem'', ''var(--font-size-sm)''),
     (''1.1rem'', ''var(--font-size-lg)''),
     (''1.2rem'', ''var(--font-size-xl)'')]"

definition SHADOW_MAPPINGS :: "(string \<times> string) list" where
  "SHADOW_MAPPINGS =
    [(''0 1px 2px rgba(0,0,0,.06)'', ''var(--shadow-sm)''),
     (''0 6px 16px rgba(0,0,0,.10)'', ''var(--shadow-base)''),
     (''0 4px 8px rgba(0,0,0,.08)'', ''var(--shadow-base)''),
     (''0 8px 16px rgba(0,0,0,.12)'', ''var(--shadow-md)''),
     (''0 16px 32px rgba(0,0,0,.16)'', ''var(--shadow-lg)'')]"

definition RADIUS_MAPPINGS :: "(string \<times> string) list" where
  "RADIUS_MAPPINGS =
    [(''0.5rem'', ''var(--radius-base)''),
     (''0.75rem'', ''var(--radius-md)''),
     (''1rem'', ''var(--radius-lg)''),
     (''0.4rem'', ''var(--radius-base)''),
     (''0.6rem'', ''var(--radius-base)''),
     (''999px'', ''var(--radius-full)''),
     (''9999px'', ''var(--radius-full)'')]"

definition LINE_HEIGHT_MAPPINGS :: "(string \<times> string) list" where
  "LINE_HEIGHT_MAPPINGS =
    [(''1.15'', ''var(--line-height-tight)''),
     (''1.6'', ''var(--line-height-relaxed)''),
     (''1.5'', ''var(--line-height-normal)'')]"

definition FONT_WEIGHT_MAPPINGS :: "(string \<times> string) list" where
  "FONT_WEIGHT_MAPPINGS =
    [(''400'', ''var(--font-weight-normal)''),
     (''500'', ''var(--font-weight-medium)''),
     (''600'', ''var(--font-weight-semibold)''),
     (''700'', ''var(--font-weight-bold)'')]"

definition LETTER_SPACING_MAPPINGS :: "(string \<times> string) list" where
  "LETTER_SPACING_MAPPINGS = [(''0.06em'', ''var(--letter-spacing-widest)'')]"

definition MAX_WIDTH_MAPPINGS :: "(string \<times> string) list" where
  "MAX_WIDTH_MAPPINGS = [(''1200px'', ''var(--max-width-wrap)'')]"

definition Z_INDEX_MAPPINGS :: "(string \<times> string) list" where
  "Z_INDEX_MAPPINGS =
    [(''50'', ''var(--z-sticky)''),
     (''1000'', ''var(--z-skipLink)'')]"

definition TRANSITION_MAPPINGS :: "(string \<times> string) list" where
  "TRANSITION_MAPPINGS =
    [(''0.15s'', ''var(--transition-duration-fast)''),
     (''0.25s'', ''var(--transition-duration-base)''),
     (''0.4s'', ''var(--transition-duration-slow)''),
     (''0.3s'', ''var(--transition-duration-base)'')]"

definition FONT_FAMILY_MAPPINGS :: "(string \<times> string) list" where
  "FONT_FAMILY_MAPPINGS =
    [(''ui-sans-serif, system-ui, -apple-system, Segoe UI, Roboto, Inter, ''
        @ quoted ''Helvetica Neue'' @ '', Arial, '' @ quoted ''Noto Sans'' @ '', ''
        @ quoted ''Liberation Sans'' @ '', sans-serif'',
      ''var(--font-family-sans)'')]"

definition allMappings :: "(string \<times> string) list list" where
  "allMappings =
    [COLOR_MAPPINGS, SPACING_MAPPINGS, FONT_SIZE_MAPPINGS, SHADOW_MAPPINGS, RADIUS_MAPPINGS,
     LINE_HEIGHT_MAPPINGS, FONT_WEIGHT_MAPPINGS, LETTER_SPACING_MAPPINGS, MAX_WIDTH_MAPPINGS,
     Z_INDEX_MAPPINGS, TRANSITION_MAPPINGS, FONT_FAMILY_MAPPINGS]"

text \<open>
  One step of the inner loop. The key is escaped before \<open>new RegExp(escaped, 'g')\<close>, so
  the regex matches the key's characters as they are: it is \<open>lit oldValue\<close>.
\<close>

definition replaceEntry :: "string \<times> string \<Rightarrow> string \<Rightarrow> string" where
  "replaceEntry e updatedContent = replace_g updatedContent (lit (fst e)) (snd e)"

text \<open>
  \<open>applyTokenReplacements\<close>: every entry of every mapping in turn, each on the text the
  previous one left.
\<close>

definition applyTokenReplacements :: "string \<Rightarrow> string" where
  "applyTokenReplacements content =
     fold (\<lambda>mapping updatedContent. fold replaceEntry mapping updatedContent) allMappings content"


section \<open>Link audit (bird-dog-moving-inbound/scripts/check-links.js)\<close>

text \<open>\<open>/<a[^>]+href=["']([^"']+)["'][^>]*>([^<]*)<\/a>/gi\<close>\<close>

definition linkRegex :: re where
  "linkRegex =
     seqs [Chr CHR ''<'', ci CHR ''a'', Many1 (NoneOf ''>''), lit_i ''href='', OneOf [dq, sq],
           Grp 1 (Many1 (NoneOf [dq, sq])), OneOf [dq, sq], Star (NoneOf ''>''), Chr CHR ''>'',
           Grp 2 (Star (NoneOf ''<'')), lit_i ''</a>'']"

record link =
  k_source :: string
  k_href :: string
  k_text :: string
  k_line :: nat

text \<open>
  \<open>extractLinks\<close>: the \<open>exec\<close> loop over the page; external links and same-page
  fragments are skipped; the line is computed from \<open>match.index\<close>.
\<close>

definition extractLinks :: "string \<Rightarrow> string \<Rightarrow> link list option" where
  "extractLinks content sourceFile =
     map_option (\<lambda>ms. concat (map (\<lambda>match.
          let href = group match 1;
              text = trim (group match 2)
          in if startsWith href ''http'' \<or> startsWith href ''mailto:'' \<or> startsWith href ''tel:''
             then []
             else if startsWith href ''#'' then []
             else [\<lparr>k_source = sourceFile, k_href = href, k_text = text,
                     k_line = lineNumber content (int (index match))\<rparr>]) ms))
       (exec_loop linkRegex 0 [] content)"

text \<open>
  \<open>interlinking-map.json\<close>: \<open>patterns\<close>, each with \<open>from\<close> and a list \<open>to\<close> of
  targets with \<open>path\<close>, \<open>anchor\<close> and an optional \<open>relate\<close>. The script holds
  \<open>null\<close> when the file could not be loaded.
\<close>

record target =
  g_path :: "string option"
  g_anchor :: string
  g_relate :: "string option"

record pattern_entry =
  p_from :: string
  p_to :: "target list"

type_synonym interlinking = "pattern_entry list option"

text \<open>An issue of type \<open>missing_expected_link\<close>.\<close>

record missing_issue =
  v_source :: string
  v_expected :: string
  v_message :: string

text \<open>
  \<open>validateAgainstMap\<close>: the first pattern whose \<open>from\<close> is the page; its paths, without
  the absent and the empty ones (\<open>filter(Boolean)\<close>); one issue for each that is not the
  \<open>href\<close> of a link of the page.
\<close>

definition validateAgainstMap :: "interlinking \<Rightarrow> link list \<Rightarrow> string \<Rightarrow> missing_issue list" where
  "validateAgainstMap interlinkingMap links sourceFile =
     (case interlinkingMap of
        None \<Rightarrow> []
      | Some patterns \<Rightarrow>
          (case find (\<lambda>p. p_from p = sourceFile) patterns of
             None \<Rightarrow> []
           | Some expectedLinks \<Rightarrow>
               let expectedPaths =
                     concat (map (\<lambda>link. case g_path link of
                                             None \<Rightarrow> []
                                           | Some p \<Rightarrow> if p = [] then [] else [p])
                               (p_to expectedLinks));
                   actualPaths = map k_href links
               in concat (map (\<lambda>expectedPath.
                     if expectedPath \<notin> set actualPaths
                     then [\<lparr>v_source = sourceFile, v_expected = expectedPath,
                             v_message = ''Missing expected link to '' @ expectedPath\<rparr>]
                     else [])
                   expectedPaths)))"

record broken_issue =
  b_source :: string
  b_href :: string
  b_text :: string
  b_line :: nat
  b_message :: string

record link_result =
  r_file :: string
  r_links :: "link list"
  r_broken :: "broken_issue list"
  r_validation :: "missing_issue list"
  r_total :: nat

text \<open>
  \<open>analyzeFile\<close>: what reading the page throws, it throws (\<open>Inl\<close>); \<open>None\<close> is a
  link loop that does not end.
\<close>

definition analyzeFile_links :: "files \<Rightarrow> interlinking \<Rightarrow> string \<Rightarrow> (exn + link_result) option" where
  "analyzeFile_links fs interlinkingMap filePath =
     (case readFileSync fs filePath of
        Inl e \<Rightarrow> Some (Inl e)
      | Inr content \<Rightarrow>
          (case extractLinks content filePath of
             None \<Rightarrow> None
           | Some links \<Rightarrow>
               let brokenLinks =
                     concat (map (\<lambda>link.
                        if \<not> existsSync fs (k_href link)
                        then [\<lparr>b_source = filePath, b_href = k_href link, b_text = k_text link,
                                b_line = k_line link,
                                b_message = ''Broken link to '' @ k_href link\<rparr>]
                        else []) links);
                   validationIssues = validateAgainstMap interlinkingMap links filePath
               in Some (Inr \<lparr>r_file = filePath, r_links = links, r_broken = brokenLinks,
                              r_validation = validationIssues,
                              r_total = length brokenLinks + length validationIssues\<rparr>)))"

record link_run =
  lr_errors :: "(string \<times> exn) list"
  lr_results :: "link_result list"
  lr_exit :: nat

text \<open>The pages in turn; \<open>None\<close> as soon as the analysis of one does not return.\<close>

fun analyzeAll_links ::
  "files \<Rightarrow> interlinking \<Rightarrow> string list \<Rightarrow> (string \<times> (exn + link_result)) list option" where
  "analyzeAll_links fs im [] = Some []"
| "analyzeAll_links fs im (file # rest) =
     (case analyzeFile_links fs im file of
        None \<Rightarrow> None
      | Some out \<Rightarrow> map_option (\<lambda>outs. (file, out) # outs) (analyzeAll_links fs im rest))"

text \<open>
  \<open>main\<close>, for the pages \<open>htmlFiles\<close> that \<open>glob.sync('*.html')\<close> found. The handler
  around \<open>analyzeFile\<close> logs the error and returns a result with no link, no issue and
  total \<open>0\<close>.
\<close>

definition main_links :: "files \<Rightarrow> interlinking \<Rightarrow> string list \<Rightarrow> link_run option" where
  "main_links fs interlinkingMap htmlFiles =
     (if htmlFiles = [] then Some \<lparr>lr_errors = [], lr_results = [], lr_exit = 0\<rparr>
      else
        (case analyzeAll_links fs interlinkingMap htmlFiles of
           None \<Rightarrow> None
         | Some outcomes \<Rightarrow>
             let results = map (\<lambda>(file, out).
                         case out of
                           Inr result \<Rightarrow> result
                         | Inl error \<Rightarrow> \<lparr>r_file = file, r_links = [], r_broken = [],
                                           r_validation = [], r_total = 0\<rparr>) outcomes;
                 totalIssues = foldl (\<lambda>sum result. sum + r_total result) 0 results
             in Some \<lparr>lr_errors = concat (map (\<lambda>(file, out).
                                    case out of Inr result \<Rightarrow> [] | Inl error \<Rightarrow> [(file, error)])
                                  outcomes),
                      lr_results = results,
                      lr_exit = (if totalIssues > 0 then 1 else 0)\<rparr>))"

definition filesWithIssues_links :: "link_result list \<Rightarrow> link_result list" where
  "filesWithIssues_links results = filter (\<lambda>result. r_total result > 0) results"

text \<open>A map whose only edge from \<open>a.html\<close> carries a relation tag.\<close>

definition relate_map :: interlinking where
  "relate_map = Some [\<lparr>p_from = ''a.html'',
      p_to = [\<lparr>g_path = Some ''b.html'', g_anchor = ''Movers nearby'',
               g_relate = Some ''nearby''\<rparr>]\<rparr>]"


section \<open>Breadcrumbs (bird-dog-moving-inbound/scripts/apply-interlinking-map.js)\<close>

text \<open>\<open>breadcrumbMappings\<close>: for a page, its trail of names with their targets.\<close>

definition home_page :: string where
  "home_page = ''moving-inbound-marketing-home.html''"

definition breadcrumbMappings :: "(string \<times> (string \<times> string option) list) list" where
  "breadcrumbMappings =
    [(''service-residential.html'',
        [(''Home'', Some home_page), (''Services'', Some ''service-residential.html''),
         (''Residential Moving'', None)]),
     (''service-office.html'',
        [(''Home'', Some home_page), (''Services'', Some ''service-office.html''),
         (''Office Moving'', None)]),
     (''service-delivery.html'',
        [(''Home'', Some home_page), (''Services'', Some ''service-delivery.html''),
         (''Delivery Services'', None)]),
     (''resource-hub.html'',
        [(''Home'', Some home_page), (''Resources'', Some ''resource-hub.html''),
         (''Resource Hub'', None)]),
     (''service-areas.html'',
        [(''Home'', Some home_page), (''Service Areas'', Some ''service-areas.html''),
         (''All Areas'', None)])]"

text \<open>
  \<open>breadcrumbMappings[sourceFile]\<close> is a property lookup on a plain object: besides the
  five keys of its own it finds the properties every object inherits from
  \<open>Object.prototype\<close>. Those are functions, or for \<open>__proto__\<close> the prototype itself:
  truthy values that have no \<open>map\<close>.
\<close>

definition Object_prototype_keys :: "string list" where
  "Object_prototype_keys =
    [''constructor'', ''__defineGetter__'', ''__defineSetter__'', ''hasOwnProperty'',
     ''__lookupGetter__'', ''__lookupSetter__'', ''isPrototypeOf'', ''propertyIsEnumerable'',
     ''toString'', ''valueOf'', ''__proto__'', ''toLocaleString'']"

datatype looked_up = Trail "(string \<times> string option) list" | Inherited | Undefined

definition lookup_breadcrumbs :: "string \<Rightarrow> looked_up" where
  "lookup_breadcrumbs sourceFile =
     (case map_of breadcrumbMappings sourceFile of
        Some breadcrumbs \<Rightarrow> Trail breadcrumbs
      | None \<Rightarrow> if sourceFile \<in> set Object_prototype_keys then Inherited else Undefined)"

text \<open>One entry of the trail: the last is plain text, the others are links.\<close>

definition crumbHtml :: "nat \<Rightarrow> nat \<times> (string \<times> string option) \<Rightarrow> string" where
  "crumbHtml n =
     (\<lambda>(index, name, href).
        if Suc index = n
        then ''<li style='' @ quoted ''color: var(--color-text-primary); font-weight: var(--font-weight-medium);''
             @ ''>'' @ name @ ''</li>''
        else ''<li><a href='' @ quoted (case href of Some h \<Rightarrow> h | None \<Rightarrow> ''null'')
             @ '' style='' @ quoted ''color: var(--color-text-muted); text-decoration: none;''
             @ ''>'' @ name @ ''</a> <span style='' @ quoted ''margin: 0 var(--space-1);''
             @ ''>/</span></li>'')"

definition breadcrumbHtml :: "(string \<times> string option) list \<Rightarrow> string" where
  "breadcrumbHtml breadcrumbs =
     [nl] @ ''    <nav aria-label='' @ quoted ''Breadcrumb''
     @ '' style='' @ quoted ''margin-bottom: var(--space-3);'' @ ''>'' @ [nl]
     @ ''      <ol style=''
     @ quoted (''display: flex; list-style: none; padding: 0; margin: 0; gap: var(--space-1); ''
               @ ''font-size: var(--font-size-sm); color: var(--color-text-muted);'')
     @ ''>'' @ [nl]
     @ ''        ''
     @ concat (map (crumbHtml (length breadcrumbs)) (enumerate 0 breadcrumbs)) @ [nl]
     @ ''      </ol>'' @ [nl]
     @ ''    </nav>'' @ [nl]
     @ ''  ''"

text \<open>\<open>/<\/section>\s*(?=<section|<main)/i\<close> and \<open>/<main[^>]*>/i\<close>\<close>

definition heroEndRegex :: re where
  "heroEndRegex =
     seqs [lit_i ''</section>'', Star (OneOf space_chars),
           Ahead (Alt (lit_i ''<section'') (lit_i ''<main''))]"

definition mainStartRegex :: re where
  "mainStartRegex = seqs [lit_i ''<main'', Star (NoneOf ''>''), Chr CHR ''>'']"

text \<open>
  \<open>updateBreadcrumbs\<close>: a page for which the lookup gives \<open>undefined\<close> is returned as
  it is. Otherwise the trail is rendered first, with \<open>breadcrumbs.map\<close>: for an inherited
  property that call throws, before any test of the text. A rendered trail goes after the
  first hero end, or else after the first \<open>main\<close> tag, or else nowhere. The function
  returns the text and nothing else, and writes nothing to the console.
\<close>

definition updateBreadcrumbs :: "string \<Rightarrow> string \<Rightarrow> exn + string" where
  "updateBreadcrumbs content sourceFile =
     (case lookup_breadcrumbs sourceFile of
        Undefined \<Rightarrow> Inr content
      | Inherited \<Rightarrow> Inl TypeError
      | Trail breadcrumbs \<Rightarrow>
          if test heroEndRegex content
          then Inr (replace_first content heroEndRegex
                      (\<lambda>match. ''</section>'' @ [nl] @ ''  '' @ breadcrumbHtml breadcrumbs))
          else if test mainStartRegex content
          then Inr (replace_first content mainStartRegex
                      (\<lambda>match. match @ '' '' @ breadcrumbHtml breadcrumbs))
          else Inr content)"


section \<open>Auxiliary definitions\<close>

text \<open>
  The relation between a matcher state and a state reached from it: some text \<open>u\<close> has
  moved from the front of the remaining text to the text before the position.
\<close>

definition extends :: "mstate \<Rightarrow> mstate \<Rightarrow> bool" where
  "extends st st' \<longleftrightarrow> (\<exists>u. fst (snd st) = u @ fst (snd st') \<and> fst st' = rev u @ fst st)"

text \<open>The links \<open>extractLinks\<close> keeps: neither external nor a same-page fragment.\<close>

definition keeps :: "rmatch \<Rightarrow> bool" where
  "keeps mt \<longleftrightarrow> \<not> (startsWith (group mt 1) ''http'' \<or> startsWith (group mt 1) ''mailto:''
                     \<or> startsWith (group mt 1) ''tel:'') \<and> \<not> startsWith (group mt 1) ''#''"

text \<open>
  The result \<open>main\<close> records for a page: the result of \<open>analyzeFile\<close>, or the empty
  result of the handler.
\<close>

definition empty_token_result :: "string \<Rightarrow> token_result" where
  "empty_token_result file = \<lparr>t_file = file, t_hardcoded = [], t_unused = [], t_legacy = [], t_total = 0\<rparr>"

definition empty_link_result :: "string \<Rightarrow> link_result" where
  "empty_link_result file = \<lparr>r_file = file, r_links = [], r_broken = [], r_validation = [], r_total = 0\<rparr>"

definition token_outcome :: "files \<Rightarrow> string \<Rightarrow> token_result" where
  "token_outcome fs file =
     (case analyzeFile_tokens fs file of Inr result \<Rightarrow> result | Inl error \<Rightarrow> empty_token_result file)"

text \<open>
  The outcome of the link analysis of a page. The analysis always returns
  (\<open>analyzeFile_links_total\<close> below), so the second case never applies.
\<close>

definition link_out :: "files \<Rightarrow> interlinking \<Rightarrow> string \<Rightarrow> exn + link_result" where
  "link_out fs im f = (case analyzeFile_links fs im f of Some out \<Rightarrow> out | None \<Rightarrow> Inl ReadError)"

definition link_outcome :: "files \<Rightarrow> interlinking \<Rightarrow> string \<Rightarrow> link_result" where
  "link_outcome fs im file =
     (case link_out fs im file of Inr result \<Rightarrow> result | Inl error \<Rightarrow> empty_link_result file)"

text \<open>
  Replacing every occurrence of a literal key, from the left and without overlap: what
  the scan does for the regex of an escaped key.
\<close>

function replace_literal :: "string \<Rightarrow> string \<Rightarrow> string \<Rightarrow> string" where
  "replace_literal k new s =
     (if k \<noteq> [] \<and> prefix k s then new @ replace_literal k new (drop (length k) s)
      else (case s of [] \<Rightarrow> [] | c # cs \<Rightarrow> c # replace_literal k new cs))"
  by pat_completeness auto
termination
  by (relation "measure (\<lambda>(k, new, s). length s)") (auto simp: prefix_def)

declare replace_literal.simps [simp del]

text \<open>
  A key and a replacement clash when a piece of one can be the start of the other: some
  non-empty end of the key and the replacement agree as far as the shorter goes, or some
  non-empty end of the replacement, short of all of it, and the key do. Without a clash,
  inserting the replacement into a text gives no new occurrence of the key
  (\<open>isolated\<close>).
\<close>

fun suffix_clash :: "string \<Rightarrow> string \<Rightarrow> bool" where
  "suffix_clash [] r = False"
| "suffix_clash (c # cs) r = (prefix (c # cs) r \<or> prefix r (c # cs) \<or> suffix_clash cs r)"

definition clash :: "string \<Rightarrow> string \<Rightarrow> bool" where
  "clash k r = (suffix_clash k r \<or> suffix_clash (tl r) k)"

definition isolated :: "string \<Rightarrow> string \<Rightarrow> bool" where
  "isolated k r \<longleftrightarrow> (\<forall>x y. js_includes (x @ r @ y) k \<longrightarrow> js_includes x k \<or> js_includes y k)"

text \<open>
  The check of the table, arranged so that it is quick to evaluate. Every replacement
  starts with \<open>va\<close>, so no key may contain \<open>va\<close> or end in \<open>v\<close>. The characters
  of \<open>safe_heads\<close> occur after the first place of no replacement, so a key starting
  with one of them cannot start inside a replacement; the other keys (\<open>hard_keys\<close>) are
  compared with every replacement.
\<close>

definition safe_heads :: "char list" where
  "safe_heads = ''#01679''"

definition hard_keys :: "string list" where
  "hard_keys = map fst (filter (\<lambda>e. list_all (\<lambda>h. take 1 (fst e) \<noteq> [h]) safe_heads)
                         (concat allMappings))"

fun no_pair :: "char \<Rightarrow> char \<Rightarrow> string \<Rightarrow> bool" where
  "no_pair a b [] = True"
| "no_pair a b [c] = (c \<noteq> a)"
| "no_pair a b (c # d # cs) = ((c = a \<longrightarrow> d \<noteq> b) \<and> no_pair a b (d # cs))"

definition rep_ok :: "string list \<Rightarrow> string \<Rightarrow> bool" where
  "rep_ok hard r =
     (take 2 r = ''va'' \<and> list_all (\<lambda>c. c \<notin> set safe_heads) (tl r)
      \<and> list_all (\<lambda>k. \<not> suffix_clash (tl r) k) hard)"

definition key_ok :: "string list \<Rightarrow> string \<Rightarrow> bool" where
  "key_ok hard k =
     (no_pair CHR ''v'' CHR ''a'' k
      \<and> (if list_ex (\<lambda>h. take 1 k = [h]) safe_heads then True else k \<noteq> [] \<and> k \<in> set hard))"

definition table_ok :: "string list \<Rightarrow> (string \<times> string) list \<Rightarrow> bool" where
  "table_ok hard es =
     (list_all (rep_ok hard) (map snd es) \<and> list_all (key_ok hard) (map fst es))"

text \<open>Pages used as examples.\<close>

definition site1 :: files where
  "site1 = (\<lambda>p. if p = ''a.html'' then Unreadable
                 else if p = ''b.html'' then File ''<p style=color:#fff>B</p>''
                 else Missing)"

definition links_page :: string where
  "links_page =
     ''<a href='' @ quoted ''b.html'' @ ''>B</a>'' @ [nl]
     @ ''<p><A class=x HREF='' @ [sq] @ ''c.html'' @ [sq] @ '' id=y> C </A>'' @ [nl]
     @ ''<a href='' @ quoted ''https://x.org'' @ ''>X</a><a href='' @ quoted ''#top'' @ ''>T</a>'' @ [nl]
     @ ''<a href='' @ quoted ''b.html'' @ ''>B</a>''"

definition order_page :: string where
  "order_page = ''z-index: 5;'' @ [nl] @ ''color: #fff;''"

definition repeat_page :: string where
  "repeat_page = ''color: #fff;'' @ [nl] @ ''border-color: #fff;''"


section \<open>Theorems: theme selector\<close>

lemma setTheme_returns: "\<exists>h'. setTheme name h = Inr h'"
  by (simp add: setTheme_def localStorage_setItem_def Let_def)

lemma getSavedTheme_cases:
  "getSavedTheme h =
     Inr (if \<not> getItem_throws h \<and> (\<exists>v. items h ''theme'' = Some v \<and> v \<in> set ThemeName)
          then items h ''theme'' else None)"
  by (auto simp: getSavedTheme_def localStorage_getItem_def ThemeName_def)

text \<open>
  C1 (as stated, refuted). A name outside the six is not rejected: in \<open>browser1\<close>,
  \<open>setTheme "neon"\<close> returns normally, the root's attribute and the stored value are both
  \<open>"neon"\<close>, and the saved theme read back is \<open>null\<close>, no longer \<open>"theme-1"\<close>.
\<close>

theorem C1_setTheme_invalid_counterexample:
  "''neon'' \<notin> set ThemeName
   \<and> getSavedTheme browser1 = Inr (Some ''theme-1'')
   \<and> (case setTheme ''neon'' browser1 of
        Inl e \<Rightarrow> False
      | Inr h' \<Rightarrow> dataset_theme h' = Some ''neon'' \<and> items h' ''theme'' = Some ''neon''
                 \<and> getSavedTheme h' = Inr None)"
  by (simp add: ThemeName_def browser1_def setTheme_def localStorage_setItem_def
        getSavedTheme_def localStorage_getItem_def Let_def)

text \<open>
  C1 (amended). \<open>setTheme\<close> validates nothing and never fails. With a document, whatever
  name it is given becomes the root's attribute (\<open>""\<close> for \<open>"current"\<close>), and becomes the
  stored value when the store accepts the write; so after \<open>setTheme x\<close> with \<open>x\<close> outside
  the six names and a working store, \<open>getSavedTheme\<close> returns \<open>null\<close>.
\<close>

theorem C1_setTheme_unvalidated:
  "\<exists>h'. setTheme name h = Inr h'
     \<and> (has_document h \<longrightarrow>
          dataset_theme h' = Some (if name = ''current'' then [] else name)
          \<and> (\<not> setItem_throws h \<longrightarrow> items h' ''theme'' = Some name)
          \<and> (\<not> setItem_throws h \<and> \<not> getItem_throws h \<and> name \<notin> set ThemeName
               \<longrightarrow> getSavedTheme h' = Inr None))"
proof (cases "has_document h")
  case False
  then show ?thesis by (simp add: setTheme_def)
next
  case True
  show ?thesis
  proof (cases "setItem_throws h")
    case True
    with \<open>has_document h\<close> show ?thesis
      by (simp add: setTheme_def localStorage_setItem_def Let_def)
  next
    case False
    with \<open>has_document h\<close> show ?thesis
      by (auto simp: setTheme_def localStorage_setItem_def Let_def getSavedTheme_cases)
  qed
qed

theorem C1_setTheme_unvalidated_witness:
  "has_document browser1 \<and> \<not> setItem_throws browser1 \<and> \<not> getItem_throws browser1
   \<and> ''neon'' \<notin> set ThemeName
   \<and> (\<exists>h'. setTheme ''neon'' browser1 = Inr h' \<and> dataset_theme h' = Some ''neon''
          \<and> items h' ''theme'' = Some ''neon'' \<and> getSavedTheme h' = Inr None)"
  using C1_setTheme_unvalidated [of "''neon''" browser1]
  by (simp add: browser1_def ThemeName_def)

text \<open>
  C9. Whatever the store holds and whether or not reading it throws, \<open>getSavedTheme\<close>
  returns normally, with \<open>null\<close> or one of the six names; it returns a value \<open>v\<close> exactly
  when the read succeeds, \<open>v\<close> is the stored value and \<open>v\<close> is one of the six.
\<close>

theorem C9_getSavedTheme_total:
  "(\<exists>r. getSavedTheme h = Inr r \<and> (r = None \<or> (\<exists>v. r = Some v \<and> v \<in> set ThemeName)))
   \<and> (getSavedTheme h = Inr (Some v)
        \<longleftrightarrow> \<not> getItem_throws h \<and> items h ''theme'' = Some v \<and> v \<in> set ThemeName)
   \<and> (getSavedTheme h = Inr None
        \<longleftrightarrow> getItem_throws h \<or> items h ''theme'' = None
            \<or> (\<exists>w. items h ''theme'' = Some w \<and> w \<notin> set ThemeName))"
  by (auto simp: getSavedTheme_cases)

theorem C9_getSavedTheme_total_witness:
  "getSavedTheme browser1 = Inr (Some ''theme-1'') \<and> \<not> getItem_throws browser1
   \<and> items browser1 ''theme'' = Some ''theme-1'' \<and> ''theme-1'' \<in> set ThemeName
   \<and> getSavedTheme server1 = Inr None \<and> getItem_throws server1"
  using C9_getSavedTheme_total [of browser1 "''theme-1''"] C9_getSavedTheme_total [of server1 "''x''"]
  by (simp add: browser1_def server1_def ThemeName_def)

text \<open>
  C10. Without a document, \<open>setTheme\<close> returns the host state it was given, for every
  name: no attribute is written and nothing reaches the store.
\<close>

theorem C10_setTheme_no_document:
  "\<not> has_document h \<Longrightarrow> setTheme name h = Inr h"
  by (simp add: setTheme_def)

theorem C10_setTheme_no_document_witness:
  "\<not> has_document server1 \<and> setTheme ''theme-2'' server1 = Inr server1"
  using C10_setTheme_no_document [of server1 "''theme-2''"]
  by (simp add: server1_def)



section \<open>Theorems: the literal detector's exceptions\<close>

text \<open>
  C2 (the code at the failing input). The hex pattern matches \<open>#000000\<close> in
  \<open>color: #000000;\<close>. That text is no member of \<open>ALLOWED_EXCEPTIONS\<close>, but it contains
  the exception \<open>0\<close>, so the \<open>includes\<close> test counts it as an exception and the detector
  reports nothing for the page.
\<close>

theorem C2_exception_by_substring:
  "match_g ''color: #000000;'' (HARDCODED_PATTERNS ! 0) = [''#000000'']
   \<and> ''#000000'' \<notin> set ALLOWED_EXCEPTIONS
   \<and> isException ''#000000''
   \<and> findHardcodedValues ''color: #000000;'' ''a.html'' = []"
  by code_simp


section \<open>Theorems: expected links\<close>

text \<open>
  C4 (the code at the failing input). The only edge from \<open>a.html\<close> in \<open>relate_map\<close> is
  tagged \<open>relate: "nearby"\<close>; for a page \<open>a.html\<close> without links, \<open>validateAgainstMap\<close>
  still reports its path as a missing expected link.
\<close>

theorem C4_relate_edge_reported:
  "validateAgainstMap relate_map [] ''a.html''
     = [\<lparr>v_source = ''a.html'', v_expected = ''b.html'',
          v_message = ''Missing expected link to b.html''\<rparr>]"
  by code_simp


section \<open>Theorems: legacy tokens\<close>

text \<open>
  C5 (as stated, refuted). In \<open>var(--old-space-1)\<close> the text \<open>-space-1\<close> follows
  \<open>old\<close>, not a second hyphen, so the pattern \<open>--space-[1-7]\<close> does not match and no
  other legacy pattern does: the detector yields no finding.
\<close>

theorem C5_old_space_counterexample:
  "findLegacyTokens ''var(--old-space-1)'' ''page.html'' = []"
  by code_simp

text \<open>
  C5 (amended). For the text \<open>var(--space-1)\<close> the detector yields exactly one
  legacy-token finding, for the value \<open>--space-1\<close> on line 1, and the suggestion it carries
  is the prefix \<open>--space-\<close>; for \<open>var(--old-space-1)\<close> it yields none. The detector
  returns findings only, so the text stays as it was.
\<close>

theorem C5_legacy_space_prefix:
  "findLegacyTokens ''var(--space-1)'' ''page.html''
     = [\<lparr>l_file = ''page.html'', l_line = 1, l_value = ''--space-1'',
          l_suggestion = ''--space-'', l_message = ''Use semantic spacing tokens''\<rparr>]
   \<and> findLegacyTokens ''var(--old-space-1)'' ''page.html'' = []"
  by code_simp


section \<open>Theorems: breadcrumbs without an insertion point\<close>

text \<open>
  C6 (as stated, refuted). \<open>service-office.html\<close> has a trail and \<open>about.html\<close> has
  none. For a text with neither insertion point the function returns, for both pages, the
  text and nothing more: the page that lacks an insertion point cannot be told from the
  page that needs no breadcrumb, and no record of the condition exists.
\<close>

theorem C6_no_insertion_point_counterexample:
  "lookup_breadcrumbs ''service-office.html''
     = Trail [(''Home'', Some home_page), (''Services'', Some ''service-office.html''),
              (''Office Moving'', None)]
   \<and> lookup_breadcrumbs ''about.html'' = Undefined
   \<and> \<not> test heroEndRegex ''<p>Office moving</p>''
   \<and> \<not> test mainStartRegex ''<p>Office moving</p>''
   \<and> updateBreadcrumbs ''<p>Office moving</p>'' ''service-office.html'' = Inr ''<p>Office moving</p>''
   \<and> updateBreadcrumbs ''<p>Office moving</p>'' ''about.html'' = Inr ''<p>Office moving</p>''"
  by code_simp

text \<open>
  The names of the inherited properties are no page names: none ends in \<open>.html\<close>, as
  every name that \<open>glob.sync('*.html')\<close> hands to \<open>processFile\<close> does. For such a name
  the function throws, whatever the text.
\<close>

lemma html_name_not_inherited:
  "suffix ''.html'' sourceFile \<Longrightarrow> sourceFile \<notin> set Object_prototype_keys"
  by (auto simp: Object_prototype_keys_def suffix_def)

lemma updateBreadcrumbs_inherited_name:
  "sourceFile \<in> set Object_prototype_keys \<Longrightarrow> updateBreadcrumbs content sourceFile = Inl TypeError"
proof -
  assume "sourceFile \<in> set Object_prototype_keys"
  moreover have "\<forall>k\<in>set Object_prototype_keys. map_of breadcrumbMappings k = None"
    by code_simp
  ultimately show ?thesis
    by (simp add: updateBreadcrumbs_def lookup_breadcrumbs_def)
qed

text \<open>
  C6 (amended). For every page whose name is not the name of an inherited property and
  whose text contains neither a hero end nor a \<open>main\<close> tag, \<open>updateBreadcrumbs\<close>
  returns normally, with the text unmodified; that text is all it returns.
\<close>

theorem C6_no_insertion_point_unmodified:
  "sourceFile \<notin> set Object_prototype_keys \<Longrightarrow> \<not> test heroEndRegex content
   \<Longrightarrow> \<not> test mainStartRegex content
   \<Longrightarrow> updateBreadcrumbs content sourceFile = Inr content"
  by (simp add: updateBreadcrumbs_def lookup_breadcrumbs_def split: option.splits)

theorem C6_no_insertion_point_unmodified_witness:
  "''service-office.html'' \<notin> set Object_prototype_keys
   \<and> \<not> test heroEndRegex ''<p>Office moving</p>'' \<and> \<not> test mainStartRegex ''<p>Office moving</p>''
   \<and> updateBreadcrumbs ''<p>Office moving</p>'' ''service-office.html'' = Inr ''<p>Office moving</p>''"
proof -
  have n: "''service-office.html'' \<notin> set Object_prototype_keys" by code_simp
  have h: "\<not> test heroEndRegex ''<p>Office moving</p>''" by code_simp
  have k: "\<not> test mainStartRegex ''<p>Office moving</p>''" by code_simp
  from C6_no_insertion_point_unmodified [OF n h k] n h k show ?thesis by simp
qed


section \<open>Lemmas: the matcher and the scans\<close>

text \<open>
  The rounds given to \<open>star\<close> are never used up: with more rounds than characters
  remain, the result does not depend on their number.
\<close>

lemma star_fuel:
  "remaining st < n \<Longrightarrow> remaining st < k \<Longrightarrow> star f n st = star f k st"
proof (induction n arbitrary: k st)
  case 0
  then show ?case by simp
next
  case (Suc n)
  from Suc.prems obtain k' where k: "k = Suc k'" by (cases k) auto
  have "(if remaining st' < remaining st then star f n st' else [])
          = (if remaining st' < remaining st then star f k' st' else [])" for st'
  proof (cases "remaining st' < remaining st")
    case True
    with Suc.prems k have "remaining st' < n" "remaining st' < k'" by auto
    then have "star f n st' = star f k' st'" by (rule Suc.IH)
    then show ?thesis by simp
  next
    case False
    then show ?thesis by simp
  qed
  then show ?case by (simp add: k)
qed

text \<open>
  Whatever a regex matches, the matcher only moves forward: every state it reaches has
  taken some text off the front of what remained and put it before the position.
\<close>

lemma extends_refl: "extends st st"
  by (simp add: extends_def)

lemma extends_trans: "extends a b \<Longrightarrow> extends b c \<Longrightarrow> extends a c"
  by (auto simp: extends_def)

lemma extends_remaining: "extends st st' \<Longrightarrow> remaining st' \<le> remaining st"
  by (auto simp: extends_def remaining_def)

lemma star_extends:
  assumes f: "\<And>st st'. st' \<in> set (f st) \<Longrightarrow> extends st st'"
  shows "st' \<in> set (star f n st) \<Longrightarrow> extends st st'"
proof (induction n arbitrary: st)
  case 0
  then show ?case by (simp add: extends_refl)
next
  case (Suc n)
  then show ?case
    by (auto simp: extends_refl split: if_splits intro: extends_trans f)
qed

lemma rep_extends:
  assumes f: "\<And>st st'. st' \<in> set (f st) \<Longrightarrow> extends st st'"
  shows "st' \<in> set (rep f lo hi st) \<Longrightarrow> extends st st'"
proof (induction hi arbitrary: st lo)
  case 0
  then show ?case by (simp add: extends_refl split: if_splits)
next
  case (Suc n)
  then show ?case
    by (auto simp: extends_refl split: if_splits intro: extends_trans f)
qed

lemma run_extends: "st' \<in> set (run r st) \<Longrightarrow> extends st st'"
proof (induction r arbitrary: st st')
  case (Chr c)
  then show ?case by (auto simp: extends_def split: prod.splits list.splits if_splits)
next
  case (OneOf cs)
  then show ?case by (auto simp: extends_def split: prod.splits list.splits if_splits)
next
  case (NoneOf cs)
  then show ?case by (auto simp: extends_def split: prod.splits list.splits if_splits)
next
  case Epsilon
  then show ?case by (simp add: extends_refl)
next
  case (Seq p q)
  from Seq.prems obtain mid where "mid \<in> set (run p st)" "st' \<in> set (run q mid)"
    by auto
  then show ?case using Seq.IH extends_trans by blast
next
  case (Alt p q)
  from Alt.prems have "st' \<in> set (run p st) \<or> st' \<in> set (run q st)" by simp
  then show ?case using Alt.IH by blast
next
  case (Star p)
  from Star.prems have "st' \<in> set (star (run p) (Suc (remaining st)) st)" by simp
  then show ?case using star_extends [of "run p"] Star.IH by blast
next
  case (Rep lo hi p)
  from Rep.prems have "st' \<in> set (rep (run p) lo hi st)" by simp
  then show ?case using rep_extends [of "run p"] Rep.IH by blast
next
  case (Ahead p)
  from Ahead.prems have "st' = st" by (simp split: if_splits)
  then show ?case by (simp add: extends_refl)
next
  case (NotAhead p)
  from NotAhead.prems have "st' = st" by (simp split: if_splits)
  then show ?case by (simp add: extends_refl)
next
  case (NotBehind cs)
  from NotBehind.prems have "st' = st"
    by (cases st) (auto split: list.splits if_splits)
  then show ?case by (simp add: extends_refl)
next
  case (Grp n p)
  obtain b s g where st: "st = (b, s, g)" by (cases st)
  from Grp.prems st obtain b' s' g' where
    "(b', s', g') \<in> set (run p st)" "st' = (b', s', (n, take (length s - length s') s) # g')"
    by auto
  then show ?case using Grp.IH [of "(b', s', g')" st] by (simp add: extends_def)
qed

text \<open>
  The link regex starts with the character \<open><\<close>, so its matches are never empty, and
  the \<open>exec\<close> loop of \<open>extractLinks\<close> ends on every page.
\<close>

lemma run_chr_first_progress:
  assumes "st' \<in> set (run (Seq (Chr c) q) (b, s, g))"
  shows "length (fst (snd st')) < length s"
proof (cases s)
  case Nil
  with assms show ?thesis by simp
next
  case (Cons x xs)
  with assms have "st' \<in> set (run q (x # b, xs, g))"
    by (auto split: if_splits)
  then have "remaining st' \<le> remaining (x # b, xs, g)"
    by (intro extends_remaining run_extends)
  with Cons show ?thesis by (simp add: remaining_def)
qed

lemma linkRegex_progress:
  "st' \<in> set (run linkRegex (b, s, g)) \<Longrightarrow> length (fst (snd st')) < length s"
  unfolding linkRegex_def seqs_def foldr.simps o_apply
  by (rule run_chr_first_progress)

lemma exec_loop_total:
  assumes "\<forall>b s st'. st' \<in> set (run r (b, s, [])) \<longrightarrow> length (fst (snd st')) < length s"
  shows "\<exists>ms. exec_loop r pos b s = Some ms"
  using assms
proof (induction r pos b s rule: exec_loop.induct)
  case (1 r pos b s)
  note prog = "1.prems"
  show ?case
  proof (cases "run r (b, s, [])")
    case Nil
    show ?thesis
    proof (cases s)
      case Nil
      with \<open>run r (b, s, []) = []\<close> show ?thesis by (subst exec_loop.simps) simp
    next
      case (Cons c cs)
      with \<open>run r (b, s, []) = []\<close> "1.IH"(1) [OF \<open>run r (b, s, []) = []\<close> Cons prog]
      show ?thesis by (subst exec_loop.simps) simp
    qed
  next
    case (Cons st rest)
    obtain b1 s1 g where st: "st = (b1, s1, g)" by (cases st)
    have "st \<in> set (run r (b, s, []))" using Cons by simp
    with prog st have lt: "length s1 < length s" by fastforce
    from "1.IH"(2) [OF Cons st [symmetric] refl lt prog] obtain ms where
      "exec_loop r (pos + (length s - length s1)) b1 s1 = Some ms" by blast
    with Cons st lt show ?thesis by (subst exec_loop.simps) simp
  qed
qed

lemma extractLinks_total: "\<exists>links. extractLinks content sourceFile = Some links"
proof -
  obtain ms where "exec_loop linkRegex 0 [] content = Some ms"
    using exec_loop_total [of linkRegex 0 "[]" content] linkRegex_progress by blast
  then show ?thesis by (simp add: extractLinks_def)
qed

text \<open>The line of an index is one more than the line feeds before it, so it grows with the index.\<close>

lemma split_on_length: "length (split_on d s) = Suc (length (filter (\<lambda>c. c = d) s))"
  by (induction s) (auto split: list.splits)

lemma lineNumber_count:
  "lineNumber content (int i) = Suc (length (filter (\<lambda>c. c = nl) (take i content)))"
  by (simp add: lineNumber_def substring0_def split_on_length)

lemma lineNumber_mono:
  assumes "i \<le> j"
  shows "lineNumber content (int i) \<le> lineNumber content (int j)"
proof -
  from assms have "take j content = take i content @ take (j - i) (drop i content)"
    by (metis le_add_diff_inverse take_add)
  then show ?thesis by (simp add: lineNumber_count)
qed

text \<open>
  The matches of the loop: their indices increase strictly, none is empty, and each covers
  its own text in the page (\<open>pos\<close> is the index at which \<open>s\<close> starts).
\<close>

lemma exec_loop_matches:
  "exec_loop r pos b s = Some ms \<Longrightarrow>
     sorted_wrt (<) (map index ms)
     \<and> (\<forall>mt\<in>set ms. pos \<le> index mt \<and> matched mt \<noteq> []
            \<and> take (length (matched mt)) (drop (index mt - pos) s) = matched mt)"
proof (induction r pos b s arbitrary: ms rule: exec_loop.induct)
  case (1 r pos b s)
  show ?case
  proof (cases "run r (b, s, [])")
    case Nil
    show ?thesis
    proof (cases s)
      case Nil
      with \<open>run r (b, s, []) = []\<close> "1.prems" have "ms = []"
        by (subst (asm) exec_loop.simps) simp
      then show ?thesis by simp
    next
      case (Cons c cs)
      with \<open>run r (b, s, []) = []\<close> "1.prems" have "exec_loop r (Suc pos) (c # b) cs = Some ms"
        by (subst (asm) exec_loop.simps) simp
      from "1.IH"(1) [OF \<open>run r (b, s, []) = []\<close> Cons this]
      have srt: "sorted_wrt (<) (map index ms)"
        and each: "\<And>mt. mt \<in> set ms \<Longrightarrow> Suc pos \<le> index mt \<and> matched mt \<noteq> []
                    \<and> take (length (matched mt)) (drop (index mt - Suc pos) cs) = matched mt"
        by blast+
      have "pos \<le> index mt \<and> matched mt \<noteq> []
              \<and> take (length (matched mt)) (drop (index mt - pos) s) = matched mt"
        if "mt \<in> set ms" for mt
      proof -
        from each [OF that] have le: "Suc pos \<le> index mt" by simp
        then have "index mt - pos = Suc (index mt - Suc pos)" by simp
        with each [OF that] Cons show ?thesis by simp
      qed
      with srt show ?thesis by blast
    qed
  next
    case (Cons st rest)
    obtain b1 s1 g where st: "st = (b1, s1, g)" by (cases st)
    have "st \<in> set (run r (b, s, []))" using Cons by simp
    then have "extends (b, s, []) st" by (rule run_extends)
    with st obtain u where u: "s = u @ s1" by (auto simp: extends_def)
    show ?thesis
    proof (cases "length s1 < length s")
      case False
      with Cons st "1.prems" show ?thesis by (subst (asm) exec_loop.simps) simp
    next
      case True
      define k where "k = length s - length s1"
      from u True have ku: "k = length u" "u \<noteq> []" by (auto simp: k_def)
      from Cons st True "1.prems" obtain ms' where
        ms': "exec_loop r (pos + k) b1 s1 = Some ms'"
        and ms: "ms = \<lparr>index = pos, matched = take k s, groups = g\<rparr> # ms'"
        unfolding k_def by (subst (asm) exec_loop.simps) auto
      from "1.IH"(2) [OF Cons st [symmetric] refl True ms' [unfolded k_def]]
      have srt: "sorted_wrt (<) (map index ms')"
        and each: "\<And>mt. mt \<in> set ms' \<Longrightarrow> pos + k \<le> index mt \<and> matched mt \<noteq> []
                    \<and> take (length (matched mt)) (drop (index mt - (pos + k)) s1) = matched mt"
        unfolding k_def by blast+
      have later: "pos \<le> index mt \<and> pos < index mt \<and> matched mt \<noteq> []
              \<and> take (length (matched mt)) (drop (index mt - pos) s) = matched mt"
        if "mt \<in> set ms'" for mt
      proof -
        from each [OF that] have le: "pos + k \<le> index mt" by simp
        then have "drop (index mt - pos) s = drop (index mt - (pos + k)) s1"
          using u ku by simp
        moreover have "0 < k" using ku by simp
        ultimately show ?thesis using each [OF that] le by simp
      qed
      have first: "take (length (take k s)) (drop (pos - pos) s) = take k s" "take k s \<noteq> []"
        using u ku by auto
      from srt later first show ?thesis
        unfolding ms by auto
    qed
  qed
qed

text \<open>
  Each match of the loop is what the regex matches at its index: the first result of the
  matcher started there, with the text before the index behind it, gives the match's extent
  and captures (\<open>pre\<close> is the text before \<open>s\<close>).
\<close>

lemma exec_loop_sound:
  "exec_loop r pos b s = Some ms \<Longrightarrow> content = pre @ s \<Longrightarrow> b = rev pre \<Longrightarrow> pos = length pre \<Longrightarrow>
     \<forall>mt\<in>set ms. \<exists>b1 s1 rest.
        run r (rev (take (index mt) content), drop (index mt) content, []) = (b1, s1, groups mt) # rest
        \<and> matched mt = take (length content - index mt - length s1) (drop (index mt) content)"
proof (induction r pos b s arbitrary: ms pre rule: exec_loop.induct)
  case (1 r pos b s)
  note loop = "1.prems"(1) and content = "1.prems"(2) and b = "1.prems"(3) and pos = "1.prems"(4)
  show ?case
  proof (cases "run r (b, s, [])")
    case Nil
    show ?thesis
    proof (cases s)
      case Nil
      with \<open>run r (b, s, []) = []\<close> loop have "ms = []"
        by (subst (asm) exec_loop.simps) simp
      then show ?thesis by simp
    next
      case (Cons c cs)
      with \<open>run r (b, s, []) = []\<close> loop have "exec_loop r (Suc pos) (c # b) cs = Some ms"
        by (subst (asm) exec_loop.simps) simp
      moreover have "content = (pre @ [c]) @ cs" using content Cons by simp
      moreover have "c # b = rev (pre @ [c])" using b by simp
      moreover have "Suc pos = length (pre @ [c])" using pos by simp
      ultimately show ?thesis
        by (rule "1.IH"(1) [OF \<open>run r (b, s, []) = []\<close> Cons])
    qed
  next
    case (Cons st rest)
    obtain b1 s1 g where st: "st = (b1, s1, g)" by (cases st)
    have "st \<in> set (run r (b, s, []))" using Cons by simp
    then have "extends (b, s, []) st" by (rule run_extends)
    with st obtain u where u: "s = u @ s1" and b1: "b1 = rev u @ b" by (auto simp: extends_def)
    show ?thesis
    proof (cases "length s1 < length s")
      case False
      with Cons st loop show ?thesis by (subst (asm) exec_loop.simps) simp
    next
      case True
      define k where "k = length s - length s1"
      from u have ku: "k = length u" by (simp add: k_def)
      from Cons st True loop obtain ms' where
        ms': "exec_loop r (pos + k) b1 s1 = Some ms'"
        and ms: "ms = \<lparr>index = pos, matched = take k s, groups = g\<rparr> # ms'"
        unfolding k_def by (subst (asm) exec_loop.simps) auto
      have c': "content = (pre @ u) @ s1" using content u by simp
      have b': "b1 = rev (pre @ u)" using b1 b by simp
      have p': "pos + (length s - length s1) = length (pre @ u)" using pos ku k_def by simp
      from "1.IH"(2) [OF Cons st [symmetric] refl True ms' [unfolded k_def] c' b' p']
      have later: "\<forall>mt\<in>set ms'. \<exists>b1 s1 rest.
        run r (rev (take (index mt) content), drop (index mt) content, []) = (b1, s1, groups mt) # rest
        \<and> matched mt = take (length content - index mt - length s1) (drop (index mt) content)" .
      have tk: "take pos content = pre" and dr: "drop pos content = s"
        using content pos by simp_all
      have "run r (rev (take pos content), drop pos content, []) = (b1, s1, g) # rest"
        using Cons st tk dr b by simp
      moreover have "take k s = take (length content - pos - length s1) (drop pos content)"
        using dr content pos by (simp add: k_def)
      ultimately have first: "\<exists>b1 s1 rest.
        run r (rev (take pos content), drop pos content, []) = (b1, s1, g) # rest
        \<and> take k s = take (length content - pos - length s1) (drop pos content)"
        by blast
      from first later show ?thesis unfolding ms by simp
    qed
  qed
qed

lemma sorted_lines_of_sorted_indices:
  assumes "sorted_wrt (<) (map index ms)"
  shows "sorted (map (\<lambda>mt. lineNumber content (int (index mt))) ms)"
  using assms
proof (induction ms)
  case Nil
  then show ?case by simp
next
  case (Cons a ms)
  then show ?case by (auto intro: lineNumber_mono less_imp_le)
qed

lemma sorted_wrt_filter_map:
  "sorted_wrt (<) (map f xs) \<Longrightarrow> sorted_wrt (<) (map f (filter P xs))"
  by (induction xs) auto

lemma extractLinks_eq:
  "extractLinks content sourceFile =
     map_option (\<lambda>ms. map (\<lambda>mt. \<lparr>k_source = sourceFile, k_href = group mt 1,
                                  k_text = trim (group mt 2),
                                  k_line = lineNumber content (int (index mt))\<rparr>)
                         (filter keeps ms))
       (exec_loop linkRegex 0 [] content)"
proof -
  have "concat (map (\<lambda>match.
          let href = group match 1; text = trim (group match 2)
          in if startsWith href ''http'' \<or> startsWith href ''mailto:'' \<or> startsWith href ''tel:''
             then []
             else if startsWith href ''#'' then []
             else [\<lparr>k_source = sourceFile, k_href = href, k_text = text,
                     k_line = lineNumber content (int (index match))\<rparr>]) ms)
        = map (\<lambda>mt. \<lparr>k_source = sourceFile, k_href = group mt 1, k_text = trim (group mt 2),
                       k_line = lineNumber content (int (index mt))\<rparr>) (filter keeps ms)" for ms
    by (induction ms) (auto simp: keeps_def Let_def)
  then show ?thesis by (simp add: extractLinks_def)
qed

text \<open>The literal findings are the blocks of the patterns, one after the other.\<close>

lemma sorted_map_const: "(\<forall>x\<in>set xs. f x = (c::nat)) \<Longrightarrow> sorted (map f xs)"
  by (induction xs) auto

lemma hardcoded_pattern_order:
  assumes G: "\<And>i p x. x \<in> set (G i p) \<Longrightarrow> h_pattern x = i"
  shows "sorted (map h_pattern (concat (map (\<lambda>(i, p). G i p) (enumerate n ps))))
         \<and> (\<forall>x\<in>set (concat (map (\<lambda>(i, p). G i p) (enumerate n ps))). n \<le> h_pattern x)"
proof (induction ps arbitrary: n)
  case Nil
  then show ?case by simp
next
  case (Cons p ps)
  define rest where "rest = concat (map (\<lambda>(i, p). G i p) (enumerate (Suc n) ps))"
  from Cons.IH [of "Suc n"] have srt: "sorted (map h_pattern rest)"
    and ge: "\<And>y. y \<in> set rest \<Longrightarrow> Suc n \<le> h_pattern y"
    unfolding rest_def by blast+
  have blk: "\<And>x. x \<in> set (G n p) \<Longrightarrow> h_pattern x = n" by (rule G)
  then have "sorted (map h_pattern (G n p))" by (intro sorted_map_const [where c = n]) simp
  moreover have "h_pattern x \<le> h_pattern y" if "x \<in> set (G n p)" "y \<in> set rest" for x y
    using blk [OF that(1)] ge [OF that(2)] by simp
  ultimately have "sorted (map h_pattern (G n p @ rest))"
    using srt by (auto simp: sorted_append)
  moreover have "\<forall>x\<in>set (G n p @ rest). n \<le> h_pattern x"
    using blk ge by (auto simp: le_Suc_eq dest: Suc_leD)
  ultimately show ?case by (simp add: rest_def)
qed

lemma findHardcodedValues_pattern_order:
  "sorted (map h_pattern (findHardcodedValues content filePath))"
proof -
  have "sorted (map h_pattern (concat (map (\<lambda>(index, pattern).
        concat (map (\<lambda>match.
           if \<not> isException match
           then [\<lparr>h_file = filePath,
                   h_line = lineNumber content (indexOf content match),
                   h_value = trim match,
                   h_pattern = index\<rparr>]
           else [])
         (match_g content pattern)))
      (enumerate 0 HARDCODED_PATTERNS))))"
    by (rule hardcoded_pattern_order [THEN conjunct1]) (auto split: if_splits)
  then show ?thesis by (simp add: findHardcodedValues_def)
qed

section \<open>Lemmas: the two audits' main loops\<close>

text \<open>
  What a run of \<open>main\<close> holds, page by page: its results, its error log, and its exit
  status as a function of the totals.
\<close>

lemma foldl_total_tokens:
  "foldl (\<lambda>sum result. sum + t_total result) a rs = a + sum_list (map t_total rs)"
  by (induction rs arbitrary: a) auto

lemma foldl_total_links:
  "foldl (\<lambda>sum result. sum + r_total result) a rs = a + sum_list (map r_total rs)"
  by (induction rs arbitrary: a) auto

lemma sum_list_pos_iff: "0 < sum_list (map f xs) \<longleftrightarrow> (\<exists>x\<in>set xs. 0 < (f x :: nat))"
  by (induction xs) auto

lemma main_tokens_results:
  "tr_results (main_tokens fs htmlFiles) = map (token_outcome fs) htmlFiles"
  by (auto simp: main_tokens_def Let_def token_outcome_def empty_token_result_def o_def
        split: sum.splits)

lemma main_tokens_errors:
  "set (tr_errors (main_tokens fs htmlFiles))
     = {(f, e). f \<in> set htmlFiles \<and> analyzeFile_tokens fs f = Inl e}"
  by (auto simp: main_tokens_def Let_def split: sum.splits)

lemma main_tokens_exit_results:
  "tr_exit (main_tokens fs htmlFiles)
     = (if 0 < foldl (\<lambda>sum result. sum + t_total result) 0 (tr_results (main_tokens fs htmlFiles))
        then 1 else 0)"
  by (simp add: main_tokens_def Let_def)

lemma main_tokens_exit:
  "tr_exit (main_tokens fs htmlFiles)
     = (if \<exists>g\<in>set htmlFiles. 0 < t_total (token_outcome fs g) then 1 else 0)"
  unfolding main_tokens_exit_results main_tokens_results foldl_total_tokens
  by (simp add: sum_list_pos_iff o_def)

lemma token_outcome_file: "t_file (token_outcome fs f) = f"
  by (simp add: token_outcome_def analyzeFile_tokens_def empty_token_result_def Let_def
        split: sum.splits)

lemma token_outcome_failed:
  "analyzeFile_tokens fs f = Inl e \<Longrightarrow> token_outcome fs f = empty_token_result f"
  by (simp add: token_outcome_def)

lemma token_outcome_ok:
  "analyzeFile_tokens fs f = Inr r \<Longrightarrow> token_outcome fs f = r"
  by (simp add: token_outcome_def)

lemma analyzeFile_tokens_read_error:
  "readFileSync fs f = Inl e \<Longrightarrow> analyzeFile_tokens fs f = Inl e"
  by (simp add: analyzeFile_tokens_def)

lemma analyzeFile_links_total: "\<exists>out. analyzeFile_links fs im f = Some out"
proof (cases "readFileSync fs f")
  case (Inl e)
  then show ?thesis by (simp add: analyzeFile_links_def)
next
  case (Inr content)
  obtain links where "extractLinks content f = Some links"
    using extractLinks_total by blast
  with Inr show ?thesis by (simp add: analyzeFile_links_def Let_def)
qed

lemma analyzeFile_links_out: "analyzeFile_links fs im f = Some (link_out fs im f)"
  using analyzeFile_links_total [of fs im f] by (auto simp: link_out_def)

lemma analyzeAll_links_total:
  "analyzeAll_links fs im fl = Some (map (\<lambda>f. (f, link_out fs im f)) fl)"
  by (induction fl) (simp_all add: analyzeFile_links_out)

lemma main_links_some:
  "main_links fs im htmlFiles
     = Some \<lparr>lr_errors = concat (map (\<lambda>f. case link_out fs im f of
                                            Inr result \<Rightarrow> [] | Inl error \<Rightarrow> [(f, error)]) htmlFiles),
              lr_results = map (link_outcome fs im) htmlFiles,
              lr_exit = (if 0 < foldl (\<lambda>sum result. sum + r_total result) 0
                                   (map (link_outcome fs im) htmlFiles) then 1 else 0)\<rparr>"
proof -
  have r: "map ((\<lambda>(file, out). case out of Inr result \<Rightarrow> result
                   | Inl error \<Rightarrow> \<lparr>r_file = file, r_links = [], r_broken = [],
                                     r_validation = [], r_total = 0\<rparr>) \<circ> (\<lambda>f. (f, link_out fs im f)))
             htmlFiles = map (link_outcome fs im) htmlFiles"
    by (auto simp: link_outcome_def empty_link_result_def split: sum.splits)
  have e: "map ((\<lambda>(file, out). case out of Inr result \<Rightarrow> [] | Inl error \<Rightarrow> [(file, error)])
                 \<circ> (\<lambda>f. (f, link_out fs im f))) htmlFiles
           = map (\<lambda>f. case link_out fs im f of Inr result \<Rightarrow> [] | Inl error \<Rightarrow> [(f, error)]) htmlFiles"
    by (auto split: sum.splits)
  show ?thesis
    by (simp add: main_links_def analyzeAll_links_total Let_def r e)
qed

lemma main_links_run:
  "\<exists>run. main_links fs im htmlFiles = Some run
     \<and> lr_results run = map (link_outcome fs im) htmlFiles
     \<and> set (lr_errors run) = {(f, e). f \<in> set htmlFiles \<and> link_out fs im f = Inl e}
     \<and> lr_exit run = (if \<exists>g\<in>set htmlFiles. 0 < r_total (link_outcome fs im g) then 1 else 0)"
proof -
  have er: "set (concat (map (\<lambda>f. case link_out fs im f of
                                Inr result \<Rightarrow> [] | Inl error \<Rightarrow> [(f, error)]) htmlFiles))
           = {(f, e). f \<in> set htmlFiles \<and> link_out fs im f = Inl e}"
    by (auto split: sum.splits)
  show ?thesis
    unfolding main_links_some foldl_total_links
    using er by (simp add: sum_list_pos_iff o_def del: set_concat)
qed

lemma link_out_read_error:
  "readFileSync fs f = Inl e \<Longrightarrow> link_out fs im f = Inl e"
  by (simp add: link_out_def analyzeFile_links_def)

lemma link_outcome_file: "r_file (link_outcome fs im f) = f"
  using analyzeFile_links_out [of fs im f]
  by (auto simp: link_outcome_def empty_link_result_def analyzeFile_links_def Let_def
        split: sum.splits option.splits)

section \<open>Theorems: a page that cannot be read\<close>

text \<open>
  C7 (as stated, refuted). In \<open>site1\<close> the page \<open>a.html\<close> cannot be read. Audited
  alone, by either script, its error reaches \<open>console.error\<close>, but the result recorded
  for it holds no finding and has total \<open>0\<close>; the report's list of pages with issues is
  empty and the exit status is \<open>0\<close>.
\<close>

theorem C7_failed_page_counterexample:
  "readFileSync site1 ''a.html'' = Inl ReadError
   \<and> main_tokens site1 [''a.html'']
       = \<lparr>tr_errors = [(''a.html'', ReadError)],
          tr_results = [\<lparr>t_file = ''a.html'', t_hardcoded = [], t_unused = [], t_legacy = [],
                           t_total = 0\<rparr>],
          tr_exit = 0\<rparr>
   \<and> filesWithIssues_tokens (tr_results (main_tokens site1 [''a.html''])) = []
   \<and> main_links site1 None [''a.html'']
       = Some \<lparr>lr_errors = [(''a.html'', ReadError)],
               lr_results = [\<lparr>r_file = ''a.html'', r_links = [], r_broken = [],
                                r_validation = [], r_total = 0\<rparr>],
               lr_exit = 0\<rparr>"
  by code_simp

text \<open>
  C7 (amended). When reading a page of the batch fails, neither audit throws. The error is
  written to \<open>console.error\<close> under the page's name; the result recorded for the page is
  empty, with total \<open>0\<close>. Every page of the batch still gets its result, in order, and a
  page whose analysis succeeds gets the result of that analysis. The exit status is \<open>1\<close>
  exactly when some successfully analysed page has an issue: the failed page never
  contributes to it. The link audit returns in every case.
\<close>

theorem C7_failed_page_logged_not_counted:
  assumes "f \<in> set htmlFiles" and "readFileSync fs f = Inl e"
  shows "(f, e) \<in> set (tr_errors (main_tokens fs htmlFiles))
    \<and> map t_file (tr_results (main_tokens fs htmlFiles)) = htmlFiles
    \<and> (\<forall>r\<in>set (tr_results (main_tokens fs htmlFiles)).
          t_file r = f \<longrightarrow> t_total r = 0 \<and> t_hardcoded r = [] \<and> t_unused r = [] \<and> t_legacy r = [])
    \<and> (\<forall>g\<in>set htmlFiles. \<forall>r. analyzeFile_tokens fs g = Inr r
          \<longrightarrow> r \<in> set (tr_results (main_tokens fs htmlFiles)))
    \<and> tr_exit (main_tokens fs htmlFiles)
        = (if \<exists>g\<in>set htmlFiles. \<exists>r. analyzeFile_tokens fs g = Inr r \<and> 0 < t_total r then 1 else 0)
    \<and> (\<exists>run. main_links fs im htmlFiles = Some run
          \<and> (f, e) \<in> set (lr_errors run)
          \<and> map r_file (lr_results run) = htmlFiles
          \<and> (\<forall>r\<in>set (lr_results run).
                r_file r = f \<longrightarrow> r_total r = 0 \<and> r_links r = [] \<and> r_broken r = [] \<and> r_validation r = [])
          \<and> (\<forall>g\<in>set htmlFiles. \<forall>r. analyzeFile_links fs im g = Some (Inr r)
                \<longrightarrow> r \<in> set (lr_results run))
          \<and> lr_exit run
              = (if \<exists>g\<in>set htmlFiles. \<exists>r. analyzeFile_links fs im g = Some (Inr r) \<and> 0 < r_total r
                 then 1 else 0))"
proof -
  have tf: "analyzeFile_tokens fs f = Inl e"
    using assms(2) by (rule analyzeFile_tokens_read_error)
  have t1: "(f, e) \<in> set (tr_errors (main_tokens fs htmlFiles))"
    using assms(1) tf by (simp add: main_tokens_errors)
  have t2: "map t_file (tr_results (main_tokens fs htmlFiles)) = htmlFiles"
    by (simp add: main_tokens_results o_def token_outcome_file)
  have t3: "\<forall>r\<in>set (tr_results (main_tokens fs htmlFiles)).
          t_file r = f \<longrightarrow> t_total r = 0 \<and> t_hardcoded r = [] \<and> t_unused r = [] \<and> t_legacy r = []"
    using tf by (auto simp: main_tokens_results token_outcome_file token_outcome_failed
                   empty_token_result_def)
  have t4: "\<forall>g\<in>set htmlFiles. \<forall>r. analyzeFile_tokens fs g = Inr r
          \<longrightarrow> r \<in> set (tr_results (main_tokens fs htmlFiles))"
    by (auto simp: main_tokens_results image_iff dest: token_outcome_ok)
  have pos_t: "(0 < t_total (token_outcome fs g))
                 = (\<exists>r. analyzeFile_tokens fs g = Inr r \<and> 0 < t_total r)" for g
    by (cases "analyzeFile_tokens fs g") (simp_all add: token_outcome_def empty_token_result_def)
  have t5: "tr_exit (main_tokens fs htmlFiles)
        = (if \<exists>g\<in>set htmlFiles. \<exists>r. analyzeFile_tokens fs g = Inr r \<and> 0 < t_total r then 1 else 0)"
    by (simp add: main_tokens_exit pos_t)
  obtain run where run: "main_links fs im htmlFiles = Some run"
    and lres: "lr_results run = map (link_outcome fs im) htmlFiles"
    and lerr: "set (lr_errors run) = {(f, e). f \<in> set htmlFiles \<and> link_out fs im f = Inl e}"
    and lexit: "lr_exit run = (if \<exists>g\<in>set htmlFiles. 0 < r_total (link_outcome fs im g) then 1 else 0)"
    using main_links_run [of fs im htmlFiles] by blast
  have lf: "link_out fs im f = Inl e"
    using assms(2) by (rule link_out_read_error)
  have l1: "(f, e) \<in> set (lr_errors run)"
    using assms(1) lf by (simp add: lerr)
  have l2: "map r_file (lr_results run) = htmlFiles"
    by (simp add: lres o_def link_outcome_file)
  have l3: "\<forall>r\<in>set (lr_results run).
          r_file r = f \<longrightarrow> r_total r = 0 \<and> r_links r = [] \<and> r_broken r = [] \<and> r_validation r = []"
  proof
    fix r assume "r \<in> set (lr_results run)"
    then obtain g where g: "r = link_outcome fs im g" by (auto simp: lres)
    show "r_file r = f \<longrightarrow> r_total r = 0 \<and> r_links r = [] \<and> r_broken r = [] \<and> r_validation r = []"
    proof
      assume "r_file r = f"
      with g have "g = f" by (simp add: link_outcome_file)
      with g lf have "r = empty_link_result f" by (simp add: link_outcome_def)
      then show "r_total r = 0 \<and> r_links r = [] \<and> r_broken r = [] \<and> r_validation r = []"
        by (simp add: empty_link_result_def)
    qed
  qed
  have ok: "analyzeFile_links fs im g = Some (Inr r) \<longleftrightarrow> link_out fs im g = Inr r" for g r
    using analyzeFile_links_out [of fs im g] by auto
  have l4: "\<forall>g\<in>set htmlFiles. \<forall>r. analyzeFile_links fs im g = Some (Inr r)
          \<longrightarrow> r \<in> set (lr_results run)"
    by (auto simp: lres ok image_iff link_outcome_def intro!: bexI)
  have pos_l: "(0 < r_total (link_outcome fs im g))
                 = (\<exists>r. analyzeFile_links fs im g = Some (Inr r) \<and> 0 < r_total r)" for g
    by (cases "link_out fs im g") (simp_all add: ok link_outcome_def empty_link_result_def)
  have l5: "lr_exit run
        = (if \<exists>g\<in>set htmlFiles. \<exists>r. analyzeFile_links fs im g = Some (Inr r) \<and> 0 < r_total r
           then 1 else 0)"
    by (simp add: lexit pos_l)
  from t1 t2 t3 t4 t5 run l1 l2 l3 l4 l5 show ?thesis by blast
qed

theorem C7_failed_page_logged_not_counted_witness:
  "''a.html'' \<in> set [''a.html'', ''b.html''] \<and> readFileSync site1 ''a.html'' = Inl ReadError
   \<and> (''a.html'', ReadError) \<in> set (tr_errors (main_tokens site1 [''a.html'', ''b.html'']))
   \<and> map t_file (tr_results (main_tokens site1 [''a.html'', ''b.html''])) = [''a.html'', ''b.html'']
   \<and> tr_exit (main_tokens site1 [''a.html'', ''b.html'']) = 1
   \<and> (\<exists>run. main_links site1 None [''a.html'', ''b.html''] = Some run
         \<and> (''a.html'', ReadError) \<in> set (lr_errors run)
         \<and> map r_file (lr_results run) = [''a.html'', ''b.html''])"
proof -
  have m: "''a.html'' \<in> set [''a.html'', ''b.html'']" by simp
  have r: "readFileSync site1 ''a.html'' = Inl ReadError" by code_simp
  have x: "tr_exit (main_tokens site1 [''a.html'', ''b.html'']) = 1" by code_simp
  from C7_failed_page_logged_not_counted [OF m r, of None] m r x show ?thesis
    by (elim conjE exE) (intro conjI exI; assumption)
qed

section \<open>Theorems: the order of findings\<close>

text \<open>
  C8 (as stated, refuted). In \<open>order_page\<close> a z-index stands on line 1 and a hex colour
  on line 2. The detector goes through its patterns in turn, so the colour (pattern 0, line 2)
  is emitted before the z-index (pattern 7, line 1): the lines are not ascending.
\<close>

theorem C8_pattern_order_counterexample:
  "map (\<lambda>i. (h_line i, h_value i, h_pattern i)) (findHardcodedValues order_page ''a.html'')
     = [(2, ''#fff'', 0), (1, ''z-index: 5'', 7)]
   \<and> \<not> sorted (map h_line (findHardcodedValues order_page ''a.html''))"
  by code_simp

text \<open>
  The line of a literal is looked up with \<open>content.indexOf(match)\<close>, the first place the
  matched text occurs: in \<open>repeat_page\<close> the colour on line 2 is reported on line 1.
\<close>

lemma findHardcodedValues_repeated_literal:
  "map (\<lambda>i. (h_line i, h_value i)) (findHardcodedValues repeat_page ''a.html'')
     = [(1, ''#fff''), (1, ''#fff'')]"
  by code_simp

text \<open>
  C8 (amended). For every page, \<open>extractLinks\<close> returns. The anchors its loop matches
  lie at strictly increasing indices of the page; each is what the link regex matches at its
  index, is not empty and covers its own text there. The links are, in that order and one
  for one, the anchors that are neither external nor a same-page fragment, each with the
  href captured in its own anchor and the line of its own anchor's index; so the line numbers
  of the links ascend. The findings of \<open>findHardcodedValues\<close> come out pattern by
  pattern, in the order of \<open>HARDCODED_PATTERNS\<close>.
\<close>

theorem C8_links_by_position_literals_by_pattern:
  "(\<exists>ms links.
      exec_loop linkRegex 0 [] content = Some ms
      \<and> extractLinks content sourceFile = Some links
      \<and> sorted_wrt (<) (map index ms)
      \<and> (\<forall>mt\<in>set ms. matched mt \<noteq> []
             \<and> take (length (matched mt)) (drop (index mt) content) = matched mt
             \<and> (\<exists>b1 s1 rest.
                   run linkRegex (rev (take (index mt) content), drop (index mt) content, [])
                     = (b1, s1, groups mt) # rest
                   \<and> matched mt
                       = take (length content - index mt - length s1) (drop (index mt) content)))
      \<and> links = map (\<lambda>mt. \<lparr>k_source = sourceFile, k_href = group mt 1,
                                 k_text = trim (group mt 2),
                                 k_line = lineNumber content (int (index mt))\<rparr>)
                      (filter keeps ms)
      \<and> sorted (map k_line links)
      \<and> (\<forall>l\<in>set links. \<exists>mt\<in>set ms.
             k_line l = lineNumber content (int (index mt)) \<and> k_href l = group mt 1))
   \<and> sorted (map h_pattern (findHardcodedValues content filePath))"
proof -
  obtain ms where ms: "exec_loop linkRegex 0 [] content = Some ms"
    using exec_loop_total [of linkRegex 0 "[]" content] linkRegex_progress by blast
  from exec_loop_matches [OF ms]
  have srt: "sorted_wrt (<) (map index ms)"
    and cover: "\<forall>mt\<in>set ms. matched mt \<noteq> []
                 \<and> take (length (matched mt)) (drop (index mt) content) = matched mt"
    by auto
  have "content = [] @ content" "[] = rev ([] :: string)" "0 = length ([] :: string)"
    by simp_all
  from exec_loop_sound [OF ms this]
  have sound: "\<forall>mt\<in>set ms. \<exists>b1 s1 rest.
        run linkRegex (rev (take (index mt) content), drop (index mt) content, [])
          = (b1, s1, groups mt) # rest
        \<and> matched mt = take (length content - index mt - length s1) (drop (index mt) content)" .
  from cover sound
  have each: "\<forall>mt\<in>set ms. matched mt \<noteq> []
             \<and> take (length (matched mt)) (drop (index mt) content) = matched mt
             \<and> (\<exists>b1 s1 rest.
                   run linkRegex (rev (take (index mt) content), drop (index mt) content, [])
                     = (b1, s1, groups mt) # rest
                   \<and> matched mt
                       = take (length content - index mt - length s1) (drop (index mt) content))"
    by blast
  define links where
    "links = map (\<lambda>mt. \<lparr>k_source = sourceFile, k_href = group mt 1, k_text = trim (group mt 2),
                          k_line = lineNumber content (int (index mt))\<rparr>) (filter keeps ms)"
  have ex: "extractLinks content sourceFile = Some links"
    by (simp add: extractLinks_eq ms links_def)
  have "sorted_wrt (<) (map index (filter keeps ms))"
    using srt by (rule sorted_wrt_filter_map)
  then have "sorted (map (\<lambda>mt. lineNumber content (int (index mt))) (filter keeps ms))"
    by (rule sorted_lines_of_sorted_indices)
  then have sl: "sorted (map k_line links)"
    by (simp add: links_def o_def)
  have src: "\<forall>l\<in>set links. \<exists>mt\<in>set ms.
             k_line l = lineNumber content (int (index mt)) \<and> k_href l = group mt 1"
    by (auto simp: links_def)
  have "\<exists>ms links.
      exec_loop linkRegex 0 [] content = Some ms
      \<and> extractLinks content sourceFile = Some links
      \<and> sorted_wrt (<) (map index ms)
      \<and> (\<forall>mt\<in>set ms. matched mt \<noteq> []
             \<and> take (length (matched mt)) (drop (index mt) content) = matched mt
             \<and> (\<exists>b1 s1 rest.
                   run linkRegex (rev (take (index mt) content), drop (index mt) content, [])
                     = (b1, s1, groups mt) # rest
                   \<and> matched mt
                       = take (length content - index mt - length s1) (drop (index mt) content)))
      \<and> links = map (\<lambda>mt. \<lparr>k_source = sourceFile, k_href = group mt 1,
                                 k_text = trim (group mt 2),
                                 k_line = lineNumber content (int (index mt))\<rparr>)
                      (filter keeps ms)
      \<and> sorted (map k_line links)
      \<and> (\<forall>l\<in>set links. \<exists>mt\<in>set ms.
             k_line l = lineNumber content (int (index mt)) \<and> k_href l = group mt 1)"
    using ms ex srt each links_def sl src by (intro exI conjI)
  with findHardcodedValues_pattern_order [of content filePath] show ?thesis by (intro conjI)
qed

theorem C8_links_by_position_literals_by_pattern_witness:
  "exec_loop linkRegex 0 [] links_page
     = Some [\<lparr>index = 0, matched = ''<a href='' @ quoted ''b.html'' @ ''>B</a>'',
               groups = [(2, ''B''), (1, ''b.html'')]\<rparr>,
             \<lparr>index = 26, matched = ''<A class=x HREF='' @ [sq] @ ''c.html'' @ [sq] @ '' id=y> C </A>'',
               groups = [(2, '' C ''), (1, ''c.html'')]\<rparr>,
             \<lparr>index = 64, matched = ''<a href='' @ quoted ''https://x.org'' @ ''>X</a>'',
               groups = [(2, ''X''), (1, ''https://x.org'')]\<rparr>,
             \<lparr>index = 93, matched = ''<a href='' @ quoted ''#top'' @ ''>T</a>'',
               groups = [(2, ''T''), (1, ''#top'')]\<rparr>,
             \<lparr>index = 114, matched = ''<a href='' @ quoted ''b.html'' @ ''>B</a>'',
               groups = [(2, ''B''), (1, ''b.html'')]\<rparr>]
   \<and> extractLinks links_page ''a.html''
     = Some [\<lparr>k_source = ''a.html'', k_href = ''b.html'', k_text = ''B'', k_line = 1\<rparr>,
             \<lparr>k_source = ''a.html'', k_href = ''c.html'', k_text = ''C'', k_line = 2\<rparr>,
             \<lparr>k_source = ''a.html'', k_href = ''b.html'', k_text = ''B'', k_line = 4\<rparr>]
   \<and> (\<exists>links. extractLinks links_page ''a.html'' = Some links \<and> sorted (map k_line links))
   \<and> map h_pattern (findHardcodedValues order_page ''a.html'') = [0, 7]
   \<and> sorted (map h_pattern (findHardcodedValues order_page ''a.html''))"
proof -
  have m: "exec_loop linkRegex 0 [] links_page
     = Some [\<lparr>index = 0, matched = ''<a href='' @ quoted ''b.html'' @ ''>B</a>'',
               groups = [(2, ''B''), (1, ''b.html'')]\<rparr>,
             \<lparr>index = 26, matched = ''<A class=x HREF='' @ [sq] @ ''c.html'' @ [sq] @ '' id=y> C </A>'',
               groups = [(2, '' C ''), (1, ''c.html'')]\<rparr>,
             \<lparr>index = 64, matched = ''<a href='' @ quoted ''https://x.org'' @ ''>X</a>'',
               groups = [(2, ''X''), (1, ''https://x.org'')]\<rparr>,
             \<lparr>index = 93, matched = ''<a href='' @ quoted ''#top'' @ ''>T</a>'',
               groups = [(2, ''T''), (1, ''#top'')]\<rparr>,
             \<lparr>index = 114, matched = ''<a href='' @ quoted ''b.html'' @ ''>B</a>'',
               groups = [(2, ''B''), (1, ''b.html'')]\<rparr>]"
    by code_simp
  have e: "extractLinks links_page ''a.html''
     = Some [\<lparr>k_source = ''a.html'', k_href = ''b.html'', k_text = ''B'', k_line = 1\<rparr>,
             \<lparr>k_source = ''a.html'', k_href = ''c.html'', k_text = ''C'', k_line = 2\<rparr>,
             \<lparr>k_source = ''a.html'', k_href = ''b.html'', k_text = ''B'', k_line = 4\<rparr>]"
    by code_simp
  have h: "map h_pattern (findHardcodedValues order_page ''a.html'') = [0, 7]"
    by code_simp
  from C8_links_by_position_literals_by_pattern [of links_page "''a.html''" "''a.html''"]
  obtain links where "extractLinks links_page ''a.html'' = Some links" "sorted (map k_line links)"
    by (elim conjE exE)
  then have l: "\<exists>links. extractLinks links_page ''a.html'' = Some links \<and> sorted (map k_line links)"
    by (intro exI conjI)
  from C8_links_by_position_literals_by_pattern [of order_page "''a.html''" "''a.html''"]
  have p: "sorted (map h_pattern (findHardcodedValues order_page ''a.html''))"
    by (elim conjE)
  from m e l h p show ?thesis by (intro conjI)
qed

section \<open>Lemmas: replacing a literal\<close>

text \<open>The regex of a literal matches exactly at the places where the literal starts.\<close>

lemma run_lit:
  "run (lit k) (b, s, g) = (if prefix k s then [(rev k @ b, drop (length k) s, g)] else [])"
proof (induction k arbitrary: b s)
  case Nil
  then show ?case by (simp add: lit_def seqs_def)
next
  case (Cons c k)
  have "run (lit (c # k)) (b, s, g) = concat (map (run (lit k)) (run (Chr c) (b, s, g)))"
    by (simp add: lit_def seqs_def)
  then show ?case using Cons.IH
    by (cases s) (auto simp: lit_def seqs_def)
qed

lemma replace_scan_lit:
  "k \<noteq> [] \<Longrightarrow> replace_scan (lit k) new b s = replace_literal k new s"
proof (induction k new s arbitrary: b rule: replace_literal.induct)
  case (1 k new s)
  show ?case
  proof (cases "prefix k s")
    case True
    with "1.prems" have lt: "length (drop (length k) s) < length s"
      by (auto simp: prefix_def)
    from True "1.prems" "1.IH"(1) [of "rev k @ b"]
    have "replace_scan (lit k) new (rev k @ b) (drop (length k) s)
            = replace_literal k new (drop (length k) s)" by simp
    with True lt "1.prems" show ?thesis
      by (subst replace_scan.simps, subst replace_literal.simps) (simp add: run_lit)
  next
    case False
    show ?thesis
    proof (cases s)
      case Nil
      with False show ?thesis
        by (subst replace_scan.simps, subst replace_literal.simps) (simp add: run_lit)
    next
      case (Cons c cs)
      from False "1.prems" "1.IH"(2) [OF _ Cons, of "c # b"]
      have "replace_scan (lit k) new (c # b) cs = replace_literal k new cs" by simp
      with False Cons show ?thesis
        by (subst replace_scan.simps, subst replace_literal.simps) (simp add: run_lit)
    qed
  qed
qed

text \<open>Occurrence, and clash, in terms of splitting a text.\<close>

lemma js_includes_iff: "js_includes s t \<longleftrightarrow> (\<exists>p q. s = p @ t @ q)"
proof (induction s)
  case Nil
  then show ?case by simp
next
  case (Cons c cs)
  show ?case
  proof
    assume "js_includes (c # cs) t"
    then consider "prefix t (c # cs)" | "js_includes cs t" by auto
    then show "\<exists>p q. c # cs = p @ t @ q"
    proof cases
      case 1
      then obtain q where "c # cs = t @ q" by (auto simp: prefix_def)
      then have "c # cs = [] @ t @ q" by simp
      then show ?thesis by blast
    next
      case 2
      with Cons.IH obtain p q where "cs = p @ t @ q" by blast
      then have "c # cs = (c # p) @ t @ q" by simp
      then show ?thesis by blast
    qed
  next
    assume "\<exists>p q. c # cs = p @ t @ q"
    then obtain p q where pq: "c # cs = p @ t @ q" by blast
    show "js_includes (c # cs) t"
    proof (cases p)
      case Nil
      with pq have "prefix t (c # cs)" by (simp add: prefix_def)
      then show ?thesis by simp
    next
      case (Cons d p')
      with pq have "cs = p' @ t @ q" by simp
      with Cons.IH have "js_includes cs t" by blast
      then show ?thesis by simp
    qed
  qed
qed

lemma suffix_clash_iff:
  "suffix_clash a b \<longleftrightarrow> (\<exists>a1 a2. a = a1 @ a2 \<and> a2 \<noteq> [] \<and> (prefix a2 b \<or> prefix b a2))"
proof (induction a)
  case Nil
  then show ?case by simp
next
  case (Cons c cs)
  show ?case
  proof
    assume "suffix_clash (c # cs) b"
    then consider "prefix (c # cs) b \<or> prefix b (c # cs)" | "suffix_clash cs b" by auto
    then show "\<exists>a1 a2. c # cs = a1 @ a2 \<and> a2 \<noteq> [] \<and> (prefix a2 b \<or> prefix b a2)"
    proof cases
      case 1
      then have "c # cs = [] @ (c # cs) \<and> c # cs \<noteq> [] \<and> (prefix (c # cs) b \<or> prefix b (c # cs))"
        by simp
      then show ?thesis by blast
    next
      case 2
      with Cons.IH obtain a1 a2 where "cs = a1 @ a2" "a2 \<noteq> []" "prefix a2 b \<or> prefix b a2"
        by blast
      then have "c # cs = (c # a1) @ a2 \<and> a2 \<noteq> [] \<and> (prefix a2 b \<or> prefix b a2)" by simp
      then show ?thesis by blast
    qed
  next
    assume "\<exists>a1 a2. c # cs = a1 @ a2 \<and> a2 \<noteq> [] \<and> (prefix a2 b \<or> prefix b a2)"
    then obtain a1 a2 where h: "c # cs = a1 @ a2" "a2 \<noteq> []" "prefix a2 b \<or> prefix b a2"
      by blast
    show "suffix_clash (c # cs) b"
    proof (cases a1)
      case Nil
      with h show ?thesis by auto
    next
      case (Cons d a1')
      with h have "cs = a1' @ a2" by simp
      with h Cons.IH have "suffix_clash cs b" by blast
      then show ?thesis by simp
    qed
  qed
qed

lemma append_eq_cases:
  "a @ b = c @ d \<Longrightarrow> (\<exists>u. a = c @ u \<and> u @ b = d) \<or> (\<exists>u. a @ u = c \<and> b = u @ d)"
  by (auto simp: append_eq_append_conv2)

text \<open>
  An occurrence of the key in \<open>x @ r @ y\<close> that lies neither in \<open>x\<close> nor in \<open>y\<close>
  overlaps \<open>r\<close>, and that is a clash.
\<close>

lemma no_clash_isolated:
  assumes k: "k \<noteq> []" and nc: "\<not> clash k r"
  shows "isolated k r"
  unfolding isolated_def
proof (intro allI impI)
  fix x y
  assume "js_includes (x @ r @ y) k"
  then obtain p q where eq: "x @ r @ y = p @ k @ q" by (auto simp: js_includes_iff)
  from nc have n1: "\<not> suffix_clash k r" and n2: "\<not> suffix_clash (tl r) k"
    by (auto simp: clash_def)
  from append_eq_cases [OF eq] consider us where "x = p @ us" "us @ r @ y = k @ q"
    | us where "x @ us = p" "r @ y = us @ k @ q"
    by blast
  then show "js_includes x k \<or> js_includes y k"
  proof cases
    case 1
    from append_eq_cases [OF 1(2)]
    consider vs where "us = k @ vs" | vs where "us @ vs = k" "r @ y = vs @ q"
      by blast
    then show ?thesis
    proof cases
      case 1
      with \<open>x = p @ us\<close> have "x = p @ k @ vs" by simp
      then show ?thesis by (auto simp: js_includes_iff)
    next
      case 2
      show ?thesis
      proof (cases "vs = []")
        case True
        with 2 \<open>x = p @ us\<close> have "x = p @ k @ []" by simp
        then show ?thesis unfolding js_includes_iff by blast
      next
        case False
        from 2(2) have "prefix vs (r @ y)" "prefix r (r @ y)" by (metis prefixI)+
        then have "prefix vs r \<or> prefix r vs" by (rule prefix_same_cases)
        with 2(1) False have "suffix_clash k r"
          unfolding suffix_clash_iff by blast
        with n1 show ?thesis by contradiction
      qed
    qed
  next
    case 2
    from append_eq_cases [OF 2(2)]
    consider ws where "r = us @ ws" "ws @ y = k @ q" | ws where "r @ ws = us" "y = ws @ k @ q"
      by blast
    then show ?thesis
    proof cases
      case 2
      then show ?thesis unfolding js_includes_iff by blast
    next
      case 1
      show ?thesis
      proof (cases "ws = []")
        case True
        with 1 have "y = [] @ k @ q" by simp
        then show ?thesis unfolding js_includes_iff by blast
      next
        case False
        from 1(2) have "prefix ws (k @ q)" "prefix k (k @ q)" by (metis prefixI)+
        then have cmp: "prefix ws k \<or> prefix k ws" by (rule prefix_same_cases)
        show ?thesis
        proof (cases us)
          case Nil
          with 1 have "r = ws" by simp
          with cmp k have "k = [] @ k \<and> k \<noteq> [] \<and> (prefix k r \<or> prefix r k)" by auto
          then have "suffix_clash k r" unfolding suffix_clash_iff by blast
          with n1 show ?thesis by contradiction
        next
          case (Cons u us')
          with 1 have "tl r = us' @ ws" by simp
          with cmp False have "suffix_clash (tl r) k" unfolding suffix_clash_iff by blast
          with n2 show ?thesis by contradiction
        qed
      qed
    qed
  qed
qed

text \<open>
  Three facts about one replacement step: a text without the key is left as it is; a key
  that is absent stays absent when another entry is replaced; the key that is replaced is
  absent afterwards. The text \<open>p\<close> is what the scan has already produced.
\<close>

lemma replace_literal_absent:
  "\<not> js_includes s k \<Longrightarrow> replace_literal k new s = s"
proof (induction k new s rule: replace_literal.induct)
  case (1 k new s)
  show ?case
  proof (cases s)
    case Nil
    with "1.prems" show ?thesis by (subst replace_literal.simps) auto
  next
    case (Cons c cs)
    with "1.prems" have np: "\<not> prefix k s" and nc: "\<not> js_includes cs k" by auto
    from "1.IH"(2) [OF _ Cons] np nc have "replace_literal k new cs = cs" by simp
    with np Cons show ?thesis by (subst replace_literal.simps) simp
  qed
qed

lemma replace_literal_keeps_absent:
  assumes iso: "isolated k new'"
  shows "\<not> js_includes (p @ s) k \<Longrightarrow> \<not> js_includes (p @ replace_literal k' new' s) k"
  using iso
proof (induction k' new' s arbitrary: p rule: replace_literal.induct)
  case (1 k' new' s)
  note absent = "1.prems"(1) and iso = "1.prems"(2)
  show ?case
  proof (cases "k' \<noteq> [] \<and> prefix k' s")
    case True
    then obtain rest where s: "s = k' @ rest" by (auto simp: prefix_def)
    then have d: "drop (length k') s = rest" by simp
    have "\<not> js_includes ([] @ rest) k"
    proof
      assume "js_includes ([] @ rest) k"
      then obtain a b where "rest = a @ k @ b" by (auto simp: js_includes_iff)
      with s have "p @ s = (p @ k' @ a) @ k @ b" by simp
      then have "js_includes (p @ s) k" unfolding js_includes_iff by blast
      with absent show False by contradiction
    qed
    from "1.IH"(1) [OF True this [unfolded d [symmetric]] iso]
    have nr: "\<not> js_includes (replace_literal k' new' rest) k" by (simp add: d)
    have np: "\<not> js_includes p k"
    proof
      assume "js_includes p k"
      then obtain a b where "p = a @ k @ b" by (auto simp: js_includes_iff)
      then have "p @ s = a @ k @ (b @ s)" by simp
      then have "js_includes (p @ s) k" unfolding js_includes_iff by blast
      with absent show False by contradiction
    qed
    have "replace_literal k' new' s = new' @ replace_literal k' new' rest"
      using True d by (subst replace_literal.simps) simp
    moreover have "\<not> js_includes (p @ new' @ replace_literal k' new' rest) k"
      using iso np nr unfolding isolated_def by blast
    ultimately show ?thesis by simp
  next
    case False
    show ?thesis
    proof (cases s)
      case Nil
      with False have "replace_literal k' new' s = []" by (subst replace_literal.simps) auto
      with Nil absent show ?thesis by simp
    next
      case (Cons c cs)
      with absent have "\<not> js_includes ((p @ [c]) @ cs) k" by simp
      from "1.IH"(2) [OF False Cons this iso]
      have "\<not> js_includes ((p @ [c]) @ replace_literal k' new' cs) k" .
      moreover have "replace_literal k' new' s = c # replace_literal k' new' cs"
        using False Cons by (subst replace_literal.simps) auto
      ultimately show ?thesis by simp
    qed
  qed
qed

lemma replace_literal_removes:
  assumes k: "k \<noteq> []" and iso: "isolated k new"
  shows "(\<And>p1 p2. p = p1 @ p2 \<Longrightarrow> p2 \<noteq> [] \<Longrightarrow> \<not> prefix k (p2 @ s))
         \<Longrightarrow> \<not> js_includes (p @ replace_literal k new s) k"
  using k iso
proof (induction k new s arbitrary: p rule: replace_literal.induct)
  case (1 k new s)
  note k = \<open>k \<noteq> []\<close> and iso = \<open>isolated k new\<close>
  note start = "1.prems"(1)
  have np: "\<not> js_includes p k"
  proof
    assume "js_includes p k"
    then obtain a b where p: "p = a @ k @ b" by (auto simp: js_includes_iff)
    have "prefix k ((k @ b) @ s)" by simp
    moreover have "k @ b \<noteq> []" using k by simp
    ultimately show False using start [OF p] by blast
  qed
  show ?case
  proof (cases "prefix k s")
    case True
    then obtain rest where s: "s = k @ rest" by (auto simp: prefix_def)
    then have d: "drop (length k) s = rest" by simp
    have "\<not> js_includes ([] @ replace_literal k new (drop (length k) s)) k"
      by (rule "1.IH"(1)) (use True k iso in auto)
    then have nr: "\<not> js_includes (replace_literal k new rest) k" by (simp add: d)
    have "replace_literal k new s = new @ replace_literal k new rest"
      using True k d by (subst replace_literal.simps) simp
    moreover have "\<not> js_includes (p @ new @ replace_literal k new rest) k"
      using iso np nr unfolding isolated_def by blast
    ultimately show ?thesis by simp
  next
    case False
    show ?thesis
    proof (cases s)
      case Nil
      with False have "replace_literal k new s = []" by (subst replace_literal.simps) auto
      with np show ?thesis by simp
    next
      case (Cons c cs)
      have "\<not> js_includes ((p @ [c]) @ replace_literal k new cs) k"
      proof (rule "1.IH"(2) [OF _ Cons _ k iso])
        show "\<not> (k \<noteq> [] \<and> prefix k s)" using False by simp
      next
        fix p1 p2
        assume split: "p @ [c] = p1 @ p2" and ne: "p2 \<noteq> []"
        from ne obtain q2 where p2: "p2 = q2 @ [c]" and p: "p = p1 @ q2"
          using split by (metis append_assoc append_butlast_last_id butlast_snoc last_snoc)
        show "\<not> prefix k (p2 @ cs)"
        proof (cases "q2 = []")
          case True
          with p2 Cons False show ?thesis by simp
        next
          case False
          from start [OF p False] p2 Cons show ?thesis by simp
        qed
      qed
      moreover have "replace_literal k new s = c # replace_literal k new cs"
        using False Cons by (subst replace_literal.simps) auto
      ultimately show ?thesis by simp
    qed
  qed
qed

text \<open>The table passes the check, and the check excludes every clash.\<close>

lemma suffix_clash_head:
  "suffix_clash a b \<Longrightarrow> b \<noteq> [] \<Longrightarrow> hd b \<in> set a"
proof (induction a)
  case Nil
  then show ?case by simp
next
  case (Cons c cs)
  then show ?case by (cases b) (auto simp: prefix_def)
qed

lemma no_pair_no_clash:
  "no_pair a b k \<Longrightarrow> \<not> suffix_clash k (a # b # r)"
  by (induction a b k rule: no_pair.induct) (auto simp: prefix_Cons)

lemma table_ok_pairs:
  assumes "table_ok hard es" and "e \<in> set es" and "e' \<in> set es"
  shows "fst e \<noteq> [] \<and> \<not> clash (fst e) (snd e')"
proof -
  let ?k = "fst e" and ?r = "snd e'"
  from assms have r: "rep_ok hard ?r" and k: "key_ok hard ?k"
    by (auto simp: table_ok_def list_all_iff)
  from r obtain r' where rr: "?r = CHR ''v'' # CHR ''a'' # r'"
    by (cases ?r; cases "tl ?r") (auto simp: rep_ok_def)
  from r have tail: "\<forall>c\<in>set (tl ?r). c \<notin> set safe_heads"
    and hard: "\<forall>k\<in>set hard. \<not> suffix_clash (tl ?r) k"
    by (auto simp: rep_ok_def list_all_iff)
  from k have "no_pair CHR ''v'' CHR ''a'' ?k" by (simp add: key_ok_def)
  then have c1: "\<not> suffix_clash ?k ?r"
    unfolding rr by (rule no_pair_no_clash)
  from k consider h k' where "?k = h # k'" "h \<in> set safe_heads" | "?k \<noteq> []" "?k \<in> set hard"
    by (cases ?k) (auto simp: key_ok_def list_ex_iff split: if_splits)
  then have "?k \<noteq> [] \<and> \<not> suffix_clash (tl ?r) ?k"
  proof cases
    case 1
    then show ?thesis using suffix_clash_head [of "tl ?r" ?k] tail by auto
  next
    case 2
    then show ?thesis using hard by blast
  qed
  with c1 show ?thesis by (simp add: clash_def)
qed

lemma allMappings_reps_ok: "list_all (rep_ok hard_keys) (map snd (concat allMappings))"
  by code_simp

lemma allMappings_keys_ok: "list_all (key_ok hard_keys) (map fst (concat allMappings))"
  by code_simp

lemma allMappings_table_ok: "table_ok hard_keys (concat allMappings)"
  using allMappings_reps_ok allMappings_keys_ok by (simp only: table_ok_def simp_thms)

text \<open>After a pass over the table no key occurs; a text without keys is a fixed point.\<close>

lemma replaceEntry_literal:
  "fst e \<noteq> [] \<Longrightarrow> replaceEntry e s = replace_literal (fst e) (snd e) s"
  by (simp add: replaceEntry_def replace_g_def replace_scan_lit)

lemma fold_replace_clears:
  assumes ok: "table_ok hard tab" and sub: "set es \<subseteq> set tab"
  shows "\<forall>e\<in>set es. \<not> js_includes (fold replaceEntry es s) (fst e)"
  using sub
proof (induction es rule: rev_induct)
  case Nil
  then show ?case by simp
next
  case (snoc x es)
  let ?t = "fold replaceEntry es s"
  from snoc.prems have x: "x \<in> set tab" and es: "set es \<subseteq> set tab" by auto
  from table_ok_pairs [OF ok x x] have kx: "fst x \<noteq> []" and "\<not> clash (fst x) (snd x)" by auto
  then have isox: "isolated (fst x) (snd x)" by (intro no_clash_isolated)
  have step: "fold replaceEntry (es @ [x]) s = replace_literal (fst x) (snd x) ?t"
    using kx by (simp add: replaceEntry_literal)
  have "\<not> js_includes ([] @ replace_literal (fst x) (snd x) ?t) (fst x)"
    by (rule replace_literal_removes [OF kx isox]) simp
  then have new: "\<not> js_includes (replace_literal (fst x) (snd x) ?t) (fst x)" by simp
  have old: "\<not> js_includes (replace_literal (fst x) (snd x) ?t) (fst e)" if "e \<in> set es" for e
  proof -
    from that es have e: "e \<in> set tab" by auto
    from table_ok_pairs [OF ok e x] have "isolated (fst e) (snd x)"
      by (intro no_clash_isolated) auto
    moreover from snoc.IH [OF es] that have "\<not> js_includes ([] @ ?t) (fst e)" by simp
    ultimately have "\<not> js_includes ([] @ replace_literal (fst x) (snd x) ?t) (fst e)"
      by (rule replace_literal_keeps_absent)
    then show ?thesis by simp
  qed
  from new old show ?case unfolding step by auto
qed

lemma fold_replace_fixed:
  assumes "\<forall>e\<in>set es. \<not> js_includes s (fst e)"
    and "\<forall>e\<in>set es. fst e \<noteq> []"
  shows "fold replaceEntry es s = s"
  using assms
proof (induction es)
  case Nil
  then show ?case by simp
next
  case (Cons e es)
  then have "replaceEntry e s = s"
    by (simp add: replaceEntry_literal replace_literal_absent)
  with Cons show ?case by simp
qed

lemma applyTokenReplacements_fold:
  "applyTokenReplacements content = fold replaceEntry (concat allMappings) content"
proof -
  have "fold f (concat xss) s = fold (fold f) xss s" for f :: "'a \<Rightarrow> 'b \<Rightarrow> 'b" and xss s
    by (induction xss arbitrary: s) auto
  from this [of replaceEntry allMappings content] show ?thesis
    by (simp add: applyTokenReplacements_def)
qed


section \<open>Theorems: token rewriting is idempotent\<close>

text \<open>
  C3. For every text \<open>t\<close>, applying the token replacements to their own output changes
  nothing: after one pass no key of any mapping occurs in the text, because each replacement
  removes its key and no replacement, wherever it is inserted, brings a key back.
\<close>

theorem C3_applyTokenReplacements_idempotent:
  "applyTokenReplacements (applyTokenReplacements t) = applyTokenReplacements t"
proof -
  let ?es = "concat allMappings"
  have "\<forall>e\<in>set ?es. \<not> js_includes (fold replaceEntry ?es t) (fst e)"
    by (rule fold_replace_clears [OF allMappings_table_ok]) simp
  moreover have "\<forall>e\<in>set ?es. fst e \<noteq> []"
    using table_ok_pairs [OF allMappings_table_ok] by blast
  ultimately have "fold replaceEntry ?es (fold replaceEntry ?es t) = fold replaceEntry ?es t"
    by (rule fold_replace_fixed)
  then show ?thesis by (simp add: applyTokenReplacements_fold)
qed

theorem C3_applyTokenReplacements_idempotent_witness:
  "applyTokenReplacements ''a { color: #16324F; padding: 1.5rem 1rem; }''
     = ''a { color: var(--color-brand-primary); padding: var(--space-2xl) var(--space-xl); }''
   \<and> applyTokenReplacements (applyTokenReplacements ''a { color: #16324F; padding: 1.5rem 1rem; }'')
     = ''a { color: var(--color-brand-primary); padding: var(--space-2xl) var(--space-xl); }''"
proof -
  have e: "applyTokenReplacements ''a { color: #16324F; padding: 1.5rem 1rem; }''
     = ''a { color: var(--color-brand-primary); padding: var(--space-2xl) var(--space-xl); }''"
    by code_simp
  from C3_applyTokenReplacements_idempotent [of "''a { color: #16324F; padding: 1.5rem 1rem; }''"] e
  show ?thesis by simp
qed

end
